theory Spec2Isabelle
  imports Complex_Main "HOL-Library.Multiset"
begin

section \<open>Data model\<close>

text \<open>
  The exceptions that the pruning code and the library calls it makes can raise.
\<close>

datatype error =
    NotImplementedError
  | IndexError
  | RuntimeError
  | ZeroDivisionError
  | UnboundLocalError

text \<open>
  A weight or mask tensor of shape \<open>(out, *rest)\<close> is represented by the list of its
  \<open>out\<close> rows, each row holding the trailing dimensions flattened in row-major order.
  This is the value of \<^verbatim>\<open>w.view(w_shape[0], -1)\<close>; the closing
  \<^verbatim>\<open>.view(w_shape)\<close> only restores the dimension bookkeeping and is the identity here.
  Scalars are real numbers: the float arithmetic of the source is idealised, its
  comparisons, \<open>abs\<close> and sorting are exact on floats anyway.
\<close>

type_synonym tensor = "real list list"

definition rect :: "nat \<Rightarrow> nat \<Rightarrow> tensor \<Rightarrow> bool" where
  "rect r c w \<longleftrightarrow> length w = r \<and> (\<forall>row \<in> set w. length row = c)"

definition flatten :: "tensor \<Rightarrow> real list" where
  "flatten w = concat w"

definition numel :: "tensor \<Rightarrow> nat" where
  "numel w = length (flatten w)"

text \<open>Python's \<^verbatim>\<open>int(x)\<close> on a float truncates towards zero.\<close>

definition py_int :: "real \<Rightarrow> int" where
  "py_int x = (if 0 \<le> x then \<lfloor>x\<rfloor> else \<lceil>x\<rceil>)"

text \<open>
  Indexing along the first dimension, \<^verbatim>\<open>t[idx]\<close>: a negative index counts from the end,
  an index outside \<open>[-n, n)\<close> raises.
\<close>

definition norm_index :: "nat \<Rightarrow> int \<Rightarrow> nat option" where
  "norm_index n idx =
     (let j = (if idx < 0 then idx + int n else idx)
      in if 0 \<le> j \<and> j < int n then Some (nat j) else None)"

definition index_t :: "'a list \<Rightarrow> int \<Rightarrow> error + 'a" where
  "index_t xs idx =
     (case norm_index (length xs) idx of
        None \<Rightarrow> Inl IndexError
      | Some j \<Rightarrow> Inr (xs ! j))"

text \<open>
  \<^verbatim>\<open>t.transpose(0, 1)\<close> of a tensor with \<open>r\<close> rows and \<open>c\<close> columns; the dimensions are
  passed along because a list of rows cannot carry the width of a tensor with no rows.
\<close>

definition transpose_t :: "nat \<Rightarrow> nat \<Rightarrow> 'a list list \<Rightarrow> 'a list list" where
  "transpose_t r c w = map (\<lambda>j. map (\<lambda>i. w ! i ! j) [0..<r]) [0..<c]"

text \<open>\<^verbatim>\<open>torch.sort(t, dim=0)[0]\<close>: every column of the \<open>r \<times> c\<close> tensor sorted ascending.\<close>

definition sort_dim0 :: "nat \<Rightarrow> nat \<Rightarrow> tensor \<Rightarrow> tensor" where
  "sort_dim0 r c t = transpose_t c r (map sort (transpose_t r c t))"

text \<open>\<^verbatim>\<open>torch.norm(t, dim=0)\<close>: the L2 norm of every column of the \<open>r \<times> c\<close> tensor.\<close>

definition l2 :: "real list \<Rightarrow> real" where
  "l2 xs = sqrt (sum_list (map (\<lambda>x. x * x) xs))"

definition norm_dim0 :: "nat \<Rightarrow> nat \<Rightarrow> tensor \<Rightarrow> real list" where
  "norm_dim0 r c t = map l2 (transpose_t r c t)"

text \<open>\<^verbatim>\<open>b.float()\<close> and \<^verbatim>\<open>1. - b.float()\<close> on one boolean entry.\<close>

definition float_of :: "bool \<Rightarrow> real" where
  "float_of b = (if b then 1 else 0)"

definition keep_of :: "bool \<Rightarrow> real" where
  "keep_of b = 1 - float_of b"

section \<open>The magnitude pruning function\<close>

text \<open>
  \<^verbatim>\<open>prune(w, perc, prune_type)\<close>. With \<open>out = w_shape[0]\<close> and \<open>k\<close> the flattened size of the
  trailing dimensions, the source works on the transposed view of shape \<open>(k, out)\<close>.
  \<^verbatim>\<open>view(w_shape[0], -1)\<close> raises on a tensor with no rows.
\<close>

definition prune_weight :: "tensor \<Rightarrow> real \<Rightarrow> error + tensor" where
  "prune_weight w perc =
     (case w of
        [] \<Rightarrow> Inl RuntimeError
      | row0 # _ \<Rightarrow>
          (let out = length w; k = length row0;
               wT = transpose_t out k w;
               norm = map (map abs) wT;
               idx = py_int (perc * real k)
           in (case index_t (sort_dim0 k out norm) idx of
                 Inl e \<Rightarrow> Inl e
               | Inr threshold \<Rightarrow>
                   (let mask = map (\<lambda>nrow. map2 (\<lambda>x t. x < t) nrow threshold) norm
                    in Inr (transpose_t k out (map (map keep_of) mask))))))"

definition prune_unit :: "tensor \<Rightarrow> real \<Rightarrow> error + tensor" where
  "prune_unit w perc =
     (case w of
        [] \<Rightarrow> Inl RuntimeError
      | row0 # _ \<Rightarrow>
          (let out = length w; k = length row0;
               wT = transpose_t out k w;
               norm = norm_dim0 k out wT;
               idx = py_int (perc * real_of_int (int out))
           in (case index_t (sort norm) idx of
                 Inl e \<Rightarrow> Inl e
               | Inr threshold \<Rightarrow>
                   (let mask = replicate k (map (\<lambda>x. x < threshold) norm)
                    in Inr (transpose_t k out (map (map keep_of) mask))))))"

definition prune :: "tensor \<Rightarrow> real \<Rightarrow> string \<Rightarrow> error + tensor" where
  "prune w perc prune_type =
     (if prune_type = ''weight'' then prune_weight w perc
      else if prune_type = ''unit'' then prune_unit w perc
      else Inl NotImplementedError)"


section \<open>The pruner\<close>

text \<open>
  The configuration the pruner reads: the fields of \<^verbatim>\<open>args\<close> it uses, and the absolute
  \<^verbatim>\<open>start_step\<close> and \<^verbatim>\<open>end_step\<close> computed by the constructor. The list
  \<^verbatim>\<open>initial_masks\<close> is never read and is left out.
\<close>

record pruner =
  ramp_type :: string
  initial_sparsity :: real
  final_sparsity :: real
  ramp_cycle_step :: int
  prune_freq :: int
  use_global_prune :: bool
  prune_type :: string
  carry_mask :: bool
  ramping :: bool
  start_step :: int
  end_step :: int

text \<open>
  A model is the list \<^verbatim>\<open>model.modules()\<close>. A module that has a \<^verbatim>\<open>mask\<close> attribute carries
  a weight and a mask; every other module is \<open>Plain\<close>.
\<close>

datatype layer = Masked (weight_of: tensor) (mask_of: tensor) | Plain

type_synonym model = "layer list"

text \<open>
  A call that mutates the model either returns it or raises; in both cases the model is
  left in some state, which \<open>Inl\<close> carries next to the error.
\<close>

type_synonym outcome = "(error \<times> model) + model"

definition model_after :: "outcome \<Rightarrow> model" where
  "model_after r = (case r of Inl (e, m) \<Rightarrow> m | Inr m \<Rightarrow> m)"

definition and_then :: "layer \<Rightarrow> outcome \<Rightarrow> outcome" where
  "and_then l r = (case r of Inl (e, ls) \<Rightarrow> Inl (e, l # ls) | Inr ls \<Rightarrow> Inr (l # ls))"

subsection \<open>The sparsity schedule\<close>

definition compute_sparsity :: "pruner \<Rightarrow> int \<Rightarrow> error + real" where
  "compute_sparsity P step =
     (if ramp_type P = ''linear'' then
        (if end_step P - start_step P = 0 then Inl ZeroDivisionError
         else
           (let rate_of_increase =
                  (final_sparsity P - initial_sparsity P) / real_of_int (end_step P - start_step P)
            in Inr (initial_sparsity P + rate_of_increase * real_of_int (step - start_step P))))
      else if ramp_type P = ''half_cycle'' then
        (if ramp_cycle_step P = 0 then Inl ZeroDivisionError
         else
           (let sin_inner =
                  pi / 2 * real_of_int (step mod ramp_cycle_step P) / real_of_int (ramp_cycle_step P)
            in Inr (final_sparsity P * sin sin_inner)))
      else if ramp_type P = ''full_cycle'' then
        (if ramp_cycle_step P = 0 then Inl ZeroDivisionError
         else
           (let sin_inner = pi / 2 * (real_of_int step / real_of_int (ramp_cycle_step P))
            in Inr (final_sparsity P * \<bar>sin sin_inner\<bar>)))
      else Inl UnboundLocalError)"

subsection \<open>Global pruning\<close>

fun weights_of :: "model \<Rightarrow> tensor list" where
  "weights_of [] = []"
| "weights_of (Masked w m # ls) = w # weights_of ls"
| "weights_of (Plain # ls) = weights_of ls"

text \<open>The closing loop of \<^verbatim>\<open>global_prune\<close>: \<^verbatim>\<open>layer.mask.data = masks[count]\<close>.\<close>

fun assign_masks :: "model \<Rightarrow> tensor list \<Rightarrow> nat \<Rightarrow> outcome" where
  "assign_masks [] masks cnt = Inr []"
| "assign_masks (Masked w m # ls) masks cnt =
     (if cnt < length masks
      then and_then (Masked w (masks ! cnt)) (assign_masks ls masks (cnt + 1))
      else Inl (IndexError, Masked w m # ls))"
| "assign_masks (Plain # ls) masks cnt = and_then Plain (assign_masks ls masks cnt)"

text \<open>\<^verbatim>\<open>torch.cat\<close> raises on an empty list of tensors.\<close>

definition global_prune :: "model \<Rightarrow> real \<Rightarrow> outcome" where
  "global_prune model prune_compute =
     (let weights = weights_of model
      in if weights = [] then Inl (RuntimeError, model)
         else
           (let scores = concat (map flatten weights);
                idx = py_int (prune_compute * real (length scores));
                norm = map abs scores
            in (case index_t (sort norm) idx of
                  Inl e \<Rightarrow> Inl (e, model)
                | Inr threshold \<Rightarrow>
                    (let masks = map (map (map (\<lambda>x. float_of (\<bar>x\<bar> > threshold)))) weights
                     in assign_masks model masks 0))))"

subsection \<open>Local pruning\<close>

text \<open>
  \<^verbatim>\<open>round(x, 2)\<close> rounds half to even. The mean of a mask without elements is NaN, which
  compares false with everything: \<open>None\<close> stands for it.
\<close>

definition round_half_even :: "real \<Rightarrow> int" where
  "round_half_even x =
     (let f = \<lfloor>x\<rfloor>; d = x - of_int f
      in if d < 1 / 2 then f else if 1 / 2 < d then f + 1 else if even f then f else f + 1)"

definition py_round2 :: "real \<Rightarrow> real" where
  "py_round2 x = of_int (round_half_even (x * 100)) / 100"

definition mask_sparsity :: "tensor \<Rightarrow> real option" where
  "mask_sparsity m =
     (if numel m = 0 then None
      else Some (py_round2 (1 - sum_list (flatten m) / real (numel m))))"

definition below_final :: "pruner \<Rightarrow> tensor \<Rightarrow> bool" where
  "below_final P m = (case mask_sparsity m of None \<Rightarrow> False | Some s \<Rightarrow> s \<le> final_sparsity P)"

text \<open>\<^verbatim>\<open>module.weight * module.mask\<close>, two tensors of one shape.\<close>

definition mul_t :: "tensor \<Rightarrow> tensor \<Rightarrow> tensor" where
  "mul_t w m = map2 (map2 (\<lambda>x y. x * y)) w m"

fun local_prune :: "pruner \<Rightarrow> model \<Rightarrow> real \<Rightarrow> outcome" where
  "local_prune P [] prune_compute = Inr []"
| "local_prune P (Masked w m # ls) prune_compute =
     (if below_final P m then
        (case (if carry_mask P
               then prune (mul_t w m) prune_compute (prune_type P)
               else prune w prune_compute (prune_type P)) of
           Inl e \<Rightarrow> Inl (e, Masked w m # ls)
         | Inr module_mask \<Rightarrow> and_then (Masked w module_mask) (local_prune P ls prune_compute))
      else and_then (Masked w m) (local_prune P ls prune_compute))"
| "local_prune P (Plain # ls) prune_compute = and_then Plain (local_prune P ls prune_compute)"

subsection \<open>The two schedules and the entry point\<close>

definition ramping_prune :: "pruner \<Rightarrow> model \<Rightarrow> int \<Rightarrow> outcome" where
  "ramping_prune P model step =
     (case compute_sparsity P step of
        Inl e \<Rightarrow> Inl (e, model)
      | Inr computed \<Rightarrow>
          (let prune_percent = (if step = end_step P then final_sparsity P else computed)
           in if start_step P \<le> step \<and> step < end_step P then
                (if prune_freq P = 0 then Inl (ZeroDivisionError, model)
                 else if step mod prune_freq P = 0 then
                   (if use_global_prune P then global_prune model prune_percent
                    else local_prune P model prune_percent)
                 else Inr model)
              else Inr model))"

definition single_shot_prune :: "pruner \<Rightarrow> model \<Rightarrow> int \<Rightarrow> outcome" where
  "single_shot_prune P model step =
     (if step = start_step P then
        (if use_global_prune P then global_prune model (final_sparsity P)
         else local_prune P model (final_sparsity P))
      else Inr model)"

definition pruner_step :: "pruner \<Rightarrow> model \<Rightarrow> int \<Rightarrow> outcome" where
  "pruner_step P model step =
     (if ramping P then ramping_prune P model step else single_shot_prune P model step)"

subsection \<open>Observations on a model\<close>

text \<open>
  The masks of the mask-bearing layers in order, the number of ones in a mask, and the
  number of kept weights of a model.
\<close>

definition masks_of :: "model \<Rightarrow> tensor list" where
  "masks_of ls = concat (map (\<lambda>l. case l of Masked w m \<Rightarrow> [m] | Plain \<Rightarrow> []) ls)"

definition count_ones :: "tensor \<Rightarrow> nat" where
  "count_ones m = length (filter (\<lambda>x. x = 1) (flatten m))"

definition kept_total :: "model \<Rightarrow> nat" where
  "kept_total ls = sum_list (map count_ones (masks_of ls))"

text \<open>
  The model in which every mask-bearing layer has the mask that \<open>f\<close> computes from its
  weight, and the mask \<^verbatim>\<open>(torch.abs(w) > threshold).float()\<close>.
\<close>

definition remask :: "(tensor \<Rightarrow> tensor) \<Rightarrow> model \<Rightarrow> model" where
  "remask f ls = map (\<lambda>l. case l of Masked w m \<Rightarrow> Masked w (f w) | Plain \<Rightarrow> Plain) ls"

definition threshold_mask :: "real \<Rightarrow> tensor \<Rightarrow> tensor" where
  "threshold_mask t w = map (map (\<lambda>x. float_of (\<bar>x\<bar> > t))) w"

text \<open>
  The all-ones mask of a weight, and a model that has not been pruned yet: every weight is
  a proper tensor and every mask is all ones.
\<close>

definition ones_like :: "tensor \<Rightarrow> tensor" where
  "ones_like w = map (map (\<lambda>x. 1)) w"

definition fresh :: "model \<Rightarrow> bool" where
  "fresh ms \<longleftrightarrow>
     (\<forall>l \<in> set ms. case l of
        Plain \<Rightarrow> True
      | Masked w m \<Rightarrow> (\<forall>row \<in> set w. length row = length (hd w)) \<and> m = ones_like w)"

text \<open>
  A model whose weights and masks are proper tensors, each mask of the shape of its weight;
  and the comparison of a layer with an earlier state of it: no more ones in the mask.
\<close>

definition shaped :: "model \<Rightarrow> bool" where
  "shaped ms \<longleftrightarrow>
     (\<forall>l \<in> set ms. case l of
        Plain \<Rightarrow> True
      | Masked w m \<Rightarrow>
          rect (length w) (length (hd w)) w \<and> rect (length w) (length (hd w)) m)"

definition no_more_ones :: "layer \<Rightarrow> layer \<Rightarrow> bool" where
  "no_more_ones later earlier =
     (case (later, earlier) of
        (Masked w2 m2, Masked w1 m1) \<Rightarrow> w2 = w1 \<and> count_ones m2 \<le> count_ones m1
      | (Plain, Plain) \<Rightarrow> True
      | _ \<Rightarrow> False)"

text \<open>A magnitude after masking: what lay below the threshold \<open>t\<close> is now zero.\<close>

definition zero_below :: "real \<Rightarrow> real \<Rightarrow> real" where
  "zero_below t a = (if a < t then 0 else a)"

section \<open>The PGD attack\<close>

subsection \<open>Single-precision arithmetic\<close>

text \<open>
  The batches are \<^verbatim>\<open>torch.float32\<close> tensors, and every tensor operation of the attack
  rounds its exact result to single precision. A finite single-precision number is a real
  number; \<open>f32\<close> rounds a real to the nearest one, ties to the even significand: 24 bits
  of significand, the exponent of the value but no less than \<open>-126\<close> (below that the
  numbers are subnormal and equally spaced). Overflow to infinity, which starts at
  \<open>2^128\<close>, and NaN are outside the model.
\<close>

definition f32_exponent :: "real \<Rightarrow> int" where
  "f32_exponent x = max \<lfloor>log 2 \<bar>x\<bar>\<rfloor> (- 126)"

definition f32_ulp :: "real \<Rightarrow> real" where
  "f32_ulp x = 2 powr real_of_int (f32_exponent x - 23)"

definition f32 :: "real \<Rightarrow> real" where
  "f32 x = (if x = 0 then 0 else real_of_int (round_half_even (x / f32_ulp x)) * f32_ulp x)"

subsection \<open>The attack\<close>

text \<open>
  A batch of images is the list of its scalars. The attacked network, the criterion and
  automatic differentiation are the caller's: \<open>grad\<close> takes the network, the current
  adversarial batch and the labels, and returns the gradient of the cost with respect to
  the batch, or the error that computing it raised, together with the network as the call
  left it. The network is threaded through the calls and handed back, so that what the
  attack does to it is visible. The draw of \<^verbatim>\<open>uniform_(-eps, eps)\<close> is the argument
  \<open>noise\<close>. The step size and the budget are Python floats, taken as the reals they
  denote; the tensor operations cast them to single precision.
\<close>

record pgd =
  pgd_eps :: real
  pgd_alpha :: real
  pgd_random_start :: bool
  pgd_steps :: int

text \<open>\<^verbatim>\<open>torch.clamp(t, min=lo, max=hi)\<close> on one entry.\<close>

definition clamp :: "real \<Rightarrow> real \<Rightarrow> real \<Rightarrow> real" where
  "clamp x lo hi = min (max x lo) hi"

text \<open>
  One iteration after the gradient \<open>g\<close> is known: \<^verbatim>\<open>adv_images + alpha * grad.sign()\<close>,
  \<^verbatim>\<open>clamp(adv_images - images, -eps, eps)\<close> and \<^verbatim>\<open>clamp(images + delta, 0, 1)\<close>.
\<close>

definition pgd_update :: "real \<Rightarrow> real \<Rightarrow> real list \<Rightarrow> real list \<Rightarrow> real list \<Rightarrow> real list" where
  "pgd_update alpha eps images adv_images g =
     (let adv1 = map2 (\<lambda>a gi. f32 (a + f32 (f32 alpha * sgn gi))) adv_images g;
          delta = map2 (\<lambda>a x. clamp (f32 (a - x)) (- f32 eps) (f32 eps)) adv1 images
      in map2 (\<lambda>x d. clamp (f32 (x + d)) 0 1) images delta)"

fun pgd_loop ::
  "nat \<Rightarrow> ('m \<Rightarrow> real list \<Rightarrow> 'l \<Rightarrow> (error + real list) \<times> 'm) \<Rightarrow> 'm \<Rightarrow> 'l \<Rightarrow>
   real \<Rightarrow> real \<Rightarrow> real list \<Rightarrow> real list \<Rightarrow> (error + real list) \<times> 'm" where
  "pgd_loop 0 grad model labels alpha eps images adv_images = (Inr adv_images, model)"
| "pgd_loop (Suc n) grad model labels alpha eps images adv_images =
     (case grad model adv_images labels of
        (Inl e, model') \<Rightarrow> (Inl e, model')
      | (Inr g, model') \<Rightarrow>
          pgd_loop n grad model' labels alpha eps images
            (pgd_update alpha eps images adv_images g))"

definition eps_of :: "pgd \<Rightarrow> real option \<Rightarrow> real" where
  "eps_of A eps_arg = (case eps_arg of None \<Rightarrow> pgd_eps A | Some e \<Rightarrow> e)"

definition forward ::
  "pgd \<Rightarrow> ('m \<Rightarrow> real list \<Rightarrow> 'l \<Rightarrow> (error + real list) \<times> 'm) \<Rightarrow> real list \<Rightarrow>
   'm \<Rightarrow> real list \<Rightarrow> 'l \<Rightarrow> real option \<Rightarrow> (error + real list) \<times> 'm" where
  "forward A grad noise model images labels eps_arg =
     (let eps = eps_of A eps_arg;
          adv_images =
            (if pgd_random_start A
             then map (\<lambda>a. clamp a 0 1) (map2 (\<lambda>a u. f32 (a + u)) images noise)
             else images)
      in pgd_loop (nat (pgd_steps A)) grad model labels (pgd_alpha A) eps images adv_images)"

text \<open>
  What the attack promises about an adversarial batch: the shape of the images, every
  entry in \<open>[0, 1]\<close> and within \<open>eps\<close> of the original entry.
\<close>

definition in_ball :: "real \<Rightarrow> real list \<Rightarrow> real list \<Rightarrow> bool" where
  "in_ball eps images adv \<longleftrightarrow>
     length adv = length images \<and>
     (\<forall>i < length images. 0 \<le> adv ! i \<and> adv ! i \<le> 1 \<and> \<bar>adv ! i - images ! i\<bar> \<le> eps)"

section \<open>Example inputs\<close>

text \<open>The weight tensor of shape \<open>(4, 3)\<close> of the end-to-end scenario.\<close>

definition example_weight :: tensor where
  "example_weight = [[1, 2, 3], [4, 5, 6], [7, 8, 9], [10, 11, 12]]"

text \<open>A local, single-shot configuration with a pruning type the code does not know.\<close>

definition example_unsupported :: pruner where
  "example_unsupported =
     \<lparr>ramp_type = ''linear'', initial_sparsity = 0, final_sparsity = 1 / 2,
      ramp_cycle_step = 1, prune_freq = 1, use_global_prune = False,
      prune_type = ''filter'', carry_mask = False, ramping = False,
      start_step = 0, end_step = 10\<rparr>"

text \<open>Two mask-bearing layers around a plain module, five weights of distinct magnitude.\<close>

definition example_model :: model where
  "example_model = [Masked [[1, - 4], [2, 5]] [[1, 1], [1, 1]], Plain, Masked [[3]] [[1]]]"

text \<open>A local, single-shot configuration that carries the mask, pruning half of each row.\<close>

definition example_carry :: pruner where
  "example_carry =
     \<lparr>ramp_type = ''linear'', initial_sparsity = 0, final_sparsity = 1 / 2,
      ramp_cycle_step = 1, prune_freq = 1, use_global_prune = False,
      prune_type = ''weight'', carry_mask = True, ramping = False,
      start_step = 0, end_step = 10\<rparr>"

text \<open>A ramping configuration with a half-cycle ramp, pruning every second step.\<close>

definition example_ramping :: pruner where
  "example_ramping =
     \<lparr>ramp_type = ''half_cycle'', initial_sparsity = 0, final_sparsity = 1 / 2,
      ramp_cycle_step = 4, prune_freq = 2, use_global_prune = False,
      prune_type = ''weight'', carry_mask = True, ramping = True,
      start_step = 0, end_step = 10\<rparr>"

text \<open>
  An attack with the default budget, one step of size \<open>1\<close> and no random start; one with
  a random start and two small steps; and a network with the weights \<open>m\<close> whose cost
  gradient is \<open>m\<close> at every entry and which the call leaves alone.
\<close>

definition example_pgd :: pgd where
  "example_pgd =
     \<lparr>pgd_eps = 3 / 10, pgd_alpha = 1, pgd_random_start = False, pgd_steps = 1\<rparr>"

definition example_pgd_random :: pgd where
  "example_pgd_random =
     \<lparr>pgd_eps = 3 / 10, pgd_alpha = 2 / 255, pgd_random_start = True, pgd_steps = 2\<rparr>"

definition example_grad :: "real \<Rightarrow> real list \<Rightarrow> unit \<Rightarrow> (error + real list) \<times> real" where
  "example_grad m x l = (Inr (map (\<lambda>a. m) x), m)"

section \<open>Properties of the pruning function\<close>

lemma length_transpose_t: "length (transpose_t r c w) = c"
  by (simp add: transpose_t_def)

lemma index_t_Some: "norm_index (length xs) idx = Some j \<Longrightarrow> index_t xs idx = Inr (xs ! j)"
  by (simp add: index_t_def)

lemma index_t_None: "norm_index (length xs) idx = None \<Longrightarrow> index_t xs idx = Inl IndexError"
  by (simp add: index_t_def)

lemma norm_index_less: "norm_index n idx = Some j \<Longrightarrow> j < n"
  by (auto simp: norm_index_def Let_def split: if_splits)

lemma length_sort_dim0: "length (sort_dim0 r c t) = r"
  by (simp add: sort_dim0_def length_transpose_t)

lemma transpose_t_rect:
  assumes "rect r c w"
  shows "transpose_t c r (transpose_t r c w) = w"
  using assms
  by (auto simp: transpose_t_def rect_def list_eq_iff_nth_eq)

lemma prune_weight_rows:
  assumes "rect out k w" "0 < out"
  shows "prune_weight w perc =
     (case norm_index k (py_int (perc * real k)) of
        None \<Rightarrow> Inl IndexError
      | Some j \<Rightarrow> Inr (map (\<lambda>row. map (\<lambda>x. keep_of (\<bar>x\<bar> < sort (map abs row) ! j)) row) w))"
proof -
  have ne: "w \<noteq> []" using assms by (auto simp: rect_def)
  have lw: "length w = out" and rows: "\<And>i. i < out \<Longrightarrow> length (w ! i) = k"
    using assms by (auto simp: rect_def)
  have k: "length (hd w) = k" using assms ne by (auto simp: rect_def)
  let ?norm = "map (map abs) (transpose_t out k w)"
  have cols: "transpose_t k out ?norm = map (map abs) w"
    using lw rows by (auto simp: transpose_t_def list_eq_iff_nth_eq)
  show ?thesis
  proof (cases "norm_index k (py_int (perc * real k))")
    case None
    then show ?thesis
      by (simp add: prune_weight_def list.case_eq_if ne k lw Let_def index_t_def length_sort_dim0)
  next
    case (Some j)
    then have j: "j < k" by (rule norm_index_less)
    have thr: "sort_dim0 k out ?norm ! j = map (\<lambda>i. sort (map abs (w ! i)) ! j) [0..<out]"
      unfolding sort_dim0_def cols using j lw by (simp add: transpose_t_def)
    have "transpose_t k out (map (map keep_of) (map (\<lambda>nrow. map2 (\<lambda>x t. x < t) nrow (sort_dim0 k out ?norm ! j)) ?norm))
        = map (\<lambda>row. map (\<lambda>x. keep_of (\<bar>x\<bar> < sort (map abs row) ! j)) row) w"
      unfolding thr using lw rows
      by (auto simp: transpose_t_def list_eq_iff_nth_eq)
    then show ?thesis using Some
      by (simp add: prune_weight_def list.case_eq_if ne k lw Let_def index_t_def length_sort_dim0)
  qed
qed

lemma prune_unit_rows:
  assumes "rect out k w" "0 < out"
  shows "prune_unit w perc =
     (case norm_index out (py_int (perc * real out)) of
        None \<Rightarrow> Inl IndexError
      | Some j \<Rightarrow> Inr (map (\<lambda>row. map (\<lambda>x. keep_of (l2 row < sort (map l2 w) ! j)) row) w))"
proof -
  have ne: "w \<noteq> []" using assms by (auto simp: rect_def)
  have lw: "length w = out" and rows: "\<And>i. i < out \<Longrightarrow> length (w ! i) = k"
    using assms by (auto simp: rect_def)
  have k: "length (hd w) = k" using assms ne by (auto simp: rect_def)
  have norm: "norm_dim0 k out (transpose_t out k w) = map l2 w"
    using assms by (simp add: norm_dim0_def transpose_t_rect)
  show ?thesis
  proof (cases "norm_index out (py_int (perc * real out))")
    case None
    then show ?thesis
      by (simp add: prune_unit_def list.case_eq_if ne k lw Let_def index_t_def norm)
  next
    case (Some j)
    have "transpose_t k out (map (map keep_of) (replicate k (map (\<lambda>x. x < sort (map l2 w) ! j) (map l2 w))))
        = map (\<lambda>row. map (\<lambda>x. keep_of (l2 row < sort (map l2 w) ! j)) row) w"
      using lw rows by (auto simp: transpose_t_def list_eq_iff_nth_eq)
    then show ?thesis using Some
      by (simp add: prune_unit_def list.case_eq_if ne k lw Let_def index_t_def norm)
  qed
qed

lemma map_nth_fun: "map (\<lambda>i. f (xs ! i)) [0..<length xs] = map f xs"
  by (rule nth_equalityI) auto

lemma sort_nth0_le:
  fixes xs :: "real list"
  assumes "y \<in> set xs"
  shows "sort xs ! 0 \<le> y"
proof -
  from assms have "y \<in> set (sort xs)" by simp
  then obtain i where "i < length (sort xs)" "sort xs ! i = y"
    by (metis in_set_conv_nth)
  then show ?thesis using sorted_nth_mono [of "sort xs" 0 i] by simp
qed

lemma sort_nth0:
  fixes xs :: "real list"
  assumes "xs \<noteq> []"
  shows "sort xs ! 0 = Min (set xs)"
proof -
  have "0 < length (sort xs)" using assms by simp
  then have "sort xs ! 0 \<in> set (sort xs)" by (rule nth_mem)
  then have "sort xs ! 0 \<in> set xs" by simp
  then show ?thesis
    by (intro Min_eqI [symmetric]) (auto intro: sort_nth0_le)
qed

lemma norm_index_0: "0 < n \<Longrightarrow> norm_index n (py_int (0 * x)) = Some 0"
  by (simp add: norm_index_def py_int_def)

lemma prune_zero:
  assumes "rect out k w" "0 < out" "0 < k"
  shows "prune w 0 ''weight'' = Inr (map (map (\<lambda>x. 1)) w)"
    and "prune w 0 ''unit'' = Inr (map (map (\<lambda>x. 1)) w)"
proof -
  have a: "\<And>row x. row \<in> set w \<Longrightarrow> x \<in> set row \<Longrightarrow> \<not> \<bar>x\<bar> < sort (map abs row) ! 0"
  proof -
    fix row x assume "row \<in> set w" "x \<in> set row"
    then have "sort (map abs row) ! 0 \<le> \<bar>x\<bar>" by (intro sort_nth0_le) simp
    then show "\<not> \<bar>x\<bar> < sort (map abs row) ! 0" by simp
  qed
  show "prune w 0 ''weight'' = Inr (map (map (\<lambda>x. 1)) w)"
    using prune_weight_rows [OF assms(1,2), of 0] norm_index_0 [OF assms(3), of "real k"] a
    by (simp add: prune_def keep_of_def float_of_def)
  have b: "\<And>row. row \<in> set w \<Longrightarrow> \<not> l2 row < sort (map l2 w) ! 0"
  proof -
    fix row assume "row \<in> set w"
    then have "sort (map l2 w) ! 0 \<le> l2 row" by (intro sort_nth0_le) simp
    then show "\<not> l2 row < sort (map l2 w) ! 0" by simp
  qed
  show "prune w 0 ''unit'' = Inr (map (map (\<lambda>x. 1)) w)"
    using prune_unit_rows [OF assms(1,2), of 0] norm_index_0 [OF assms(2), of "real out"] b
    by (simp add: prune_def keep_of_def float_of_def)
qed

lemma rect_example_weight: "rect 4 3 example_weight"
  by (simp add: rect_def example_weight_def)

lemma prune_example_weight:
  "prune example_weight (1 / 2) ''weight'' = Inr [[0, 1, 1], [0, 1, 1], [0, 1, 1], [0, 1, 1]]"
proof -
  have "norm_index 3 (py_int (1 / 2 * real 3)) = Some 1"
    by (simp add: py_int_def norm_index_def)
  then show ?thesis
    using prune_weight_rows [OF rect_example_weight, of "1 / 2"]
    by (simp add: prune_def example_weight_def keep_of_def float_of_def)
qed

lemma idx_example_weight:
  "py_int (1 / 2 * real (length (transpose_t 4 3 example_weight))) = 1"
  by (simp add: length_transpose_t py_int_def)

subsection \<open>The end-to-end scenario\<close>

text \<open>
  C2, as the specification states it: on the \<open>(4, 3)\<close> example with \<open>perc = 0.5\<close> the rank
  would be \<open>int(0.5 * 4) = 2\<close> and the two smallest of the four values at every trailing
  position would be masked, which is the mask with two rows of zeros. The code does not
  return that mask and does not use that rank.
\<close>

theorem C2_not_two_of_four:
  "prune example_weight (1 / 2) ''weight'' \<noteq> Inr [[0, 0, 0], [0, 0, 0], [1, 1, 1], [1, 1, 1]]
   \<and> py_int (1 / 2 * real (length (transpose_t 4 3 example_weight))) \<noteq> 2"
  unfolding prune_example_weight idx_example_weight by simp

text \<open>
  C2, amended: the transposed view of the example has shape \<open>(3, 4)\<close>, the rank is
  \<open>int(0.5 * 3) = 1\<close>, the sort runs over the three values of each output row, and the
  mask zeroes exactly the smallest value of every row.
\<close>

theorem C2_one_of_three:
  "py_int (1 / 2 * real (length (transpose_t 4 3 example_weight))) = 1
   \<and> prune example_weight (1 / 2) ''weight'' = Inr [[0, 1, 1], [0, 1, 1], [0, 1, 1], [0, 1, 1]]"
  using prune_example_weight idx_example_weight by (rule conjI [rotated])

subsection \<open>Fraction zero\<close>

text \<open>
  C3, as the specification states it: with fraction \<open>0\<close> at least the minimum element
  (or unit) would be pruned. On a tensor with two distinct magnitudes, and on one with two
  units of distinct norm, the returned masks hold no zero.
\<close>

theorem C3_nothing_pruned_example:
  "prune [[1, 2]] 0 ''weight'' = Inr [[1, 1]] \<and> prune [[1], [2]] 0 ''unit'' = Inr [[1], [1]]"
proof -
  have "rect 1 2 [[1, 2]]" and "rect 2 1 [[1], [2]]"
    by (simp_all add: rect_def)
  then show ?thesis
    using prune_zero(1) [of 1 2 "[[1, 2]]"] prune_zero(2) [of 2 1 "[[1], [2]]"] by simp
qed

text \<open>
  C3, amended: for a tensor with at least one row and one column and fraction \<open>0\<close>, the
  rank index is \<open>0\<close> for both pruning types, the threshold is the minimum magnitude of each
  row (for \<open>weight\<close>) or the minimum unit norm (for \<open>unit\<close>), and, the comparison being
  strict, nothing lies below it: the returned mask is one everywhere.
\<close>

theorem C3_fraction_zero_keeps_all:
  assumes "rect out k w" "0 < out" "0 < k"
  shows "index_t (sort_dim0 k out (map (map abs) (transpose_t out k w))) (py_int (0 * real k))
           = Inr (map (\<lambda>row. Min (set (map abs row))) w)
       \<and> prune w 0 ''weight'' = Inr (map (map (\<lambda>x. 1)) w)
       \<and> index_t (sort (norm_dim0 k out (transpose_t out k w))) (py_int (0 * real out))
           = Inr (Min (set (map l2 w)))
       \<and> prune w 0 ''unit'' = Inr (map (map (\<lambda>x. 1)) w)"
proof -
  have lw: "length w = out" and rows: "\<And>i. i < out \<Longrightarrow> length (w ! i) = k"
    using assms by (auto simp: rect_def)
  have cols: "transpose_t k out (map (map abs) (transpose_t out k w)) = map (map abs) w"
    using lw rows by (auto simp: transpose_t_def list_eq_iff_nth_eq)
  have "sort_dim0 k out (map (map abs) (transpose_t out k w)) ! 0
          = map (\<lambda>i. sort (map abs (w ! i)) ! 0) [0..<out]"
    unfolding sort_dim0_def cols using assms(3) lw by (simp add: transpose_t_def)
  also have "\<dots> = map (\<lambda>row. sort (map abs row) ! 0) w"
    unfolding lw [symmetric] by (rule map_nth_fun)
  also have "\<dots> = map (\<lambda>row. Min (set (map abs row))) w"
  proof (rule map_cong [OF refl])
    fix row assume "row \<in> set w"
    then have "length row = k" using assms(1) by (simp add: rect_def)
    then have "map abs row \<noteq> []" using assms(3) by auto
    then show "sort (map abs row) ! 0 = Min (set (map abs row))" by (rule sort_nth0)
  qed
  finally have thr: "sort_dim0 k out (map (map abs) (transpose_t out k w)) ! 0
          = map (\<lambda>row. Min (set (map abs row))) w" .
  have t1: "index_t (sort_dim0 k out (map (map abs) (transpose_t out k w))) (py_int (0 * real k))
           = Inr (map (\<lambda>row. Min (set (map abs row))) w)"
    using index_t_Some [of "sort_dim0 k out (map (map abs) (transpose_t out k w))" "py_int (0 * real k)" 0]
      norm_index_0 [OF assms(3), of "real k"] thr
    by (simp add: length_sort_dim0)
  have ne: "map l2 w \<noteq> []" using assms(2) lw by auto
  have norm: "norm_dim0 k out (transpose_t out k w) = map l2 w"
    using assms by (simp add: norm_dim0_def transpose_t_rect)
  have t2: "index_t (sort (norm_dim0 k out (transpose_t out k w))) (py_int (0 * real out))
           = Inr (Min (set (map l2 w)))"
    using index_t_Some [of "sort (map l2 w)" "py_int (0 * real out)" 0]
      norm_index_0 [OF assms(2), of "real out"] sort_nth0 [OF ne] lw
    by (simp add: norm)
  show ?thesis
    using t1 t2 prune_zero [OF assms] by simp
qed

theorem C3_fraction_zero_keeps_all_witness:
  "rect 1 2 [[3, - 1]] \<and> prune [[3, - 1]] 0 ''weight'' = Inr [[1, 1]]
   \<and> prune [[3, - 1]] 0 ''unit'' = Inr [[1, 1]]"
proof -
  have r: "rect 1 2 [[3, - 1]]" by (simp add: rect_def)
  show ?thesis
    using r C3_fraction_zero_keeps_all [OF r] by simp
qed

subsection \<open>Fraction one\<close>

text \<open>
  C9: for fraction \<open>1\<close> and every tensor with at least one row, the rank index equals the
  length of the sorted array that is indexed (the flattened trailing size for \<open>weight\<close>,
  the number of units for \<open>unit\<close>), and \<open>prune\<close> raises the index error for both pruning
  types instead of returning a mask.
\<close>

theorem C9_fraction_one_raises:
  assumes "w \<noteq> []"
  shows "py_int (1 * real (length (hd w)))
           = int (length (sort_dim0 (length (hd w)) (length w)
                    (map (map abs) (transpose_t (length w) (length (hd w)) w))))
       \<and> prune w 1 ''weight'' = Inl IndexError
       \<and> py_int (1 * real_of_int (int (length w)))
           = int (length (sort (norm_dim0 (length (hd w)) (length w)
                    (transpose_t (length w) (length (hd w)) w))))
       \<and> prune w 1 ''unit'' = Inl IndexError"
proof -
  have n: "\<And>n. norm_index n (py_int (1 * real n)) = None"
    by (simp add: norm_index_def py_int_def)
  have n': "\<And>n. norm_index n (py_int (1 * real_of_int (int n))) = None"
    by (simp add: norm_index_def py_int_def)
  have a: "prune w 1 ''weight'' = Inl IndexError"
    using assms n
    by (simp add: prune_def prune_weight_def list.case_eq_if Let_def index_t_def
        length_sort_dim0 del: mult_1)
  have b: "prune w 1 ''unit'' = Inl IndexError"
    using assms n'
    by (simp add: prune_def prune_unit_def norm_dim0_def length_transpose_t list.case_eq_if
        Let_def index_t_def del: mult_1)
  have c: "py_int (1 * real (length (hd w)))
           = int (length (sort_dim0 (length (hd w)) (length w)
                    (map (map abs) (transpose_t (length w) (length (hd w)) w))))"
    by (simp add: length_sort_dim0 py_int_def)
  have d: "py_int (1 * real_of_int (int (length w)))
           = int (length (sort (norm_dim0 (length (hd w)) (length w)
                    (transpose_t (length w) (length (hd w)) w))))"
    by (simp add: norm_dim0_def length_transpose_t py_int_def)
  show ?thesis using a b c d by blast
qed

theorem C9_fraction_one_raises_witness:
  "example_weight \<noteq> [] \<and> prune example_weight 1 ''weight'' = Inl IndexError
   \<and> prune example_weight 1 ''unit'' = Inl IndexError"
proof -
  have ne: "example_weight \<noteq> []" by (simp add: example_weight_def)
  show ?thesis using ne C9_fraction_one_raises [OF ne] by blast
qed

subsection \<open>Pruning a weight under the mask it produced\<close>

lemma map2_map_right: "map2 f xs (map g xs) = map (\<lambda>x. f x (g x)) xs"
  by (induction xs) simp_all

lemma mul_t_derived:
  "mul_t w (map (\<lambda>row. map (c row) row) w) = map (\<lambda>row. map (\<lambda>x. x * c row x) row) w"
  by (simp add: mul_t_def map2_map_right)

lemma rect_derived: "rect out k w \<Longrightarrow> rect out k (map (\<lambda>row. map (h row) row) w)"
  by (auto simp: rect_def)

lemma sort_map_mono:
  fixes xs :: "real list"
  assumes "\<And>x y. x \<in> set xs \<Longrightarrow> y \<in> set xs \<Longrightarrow> x \<le> y \<Longrightarrow> g x \<le> (g y :: real)"
  shows "sort (map g xs) = map g (sort xs)"
proof (rule properties_for_sort)
  show "mset (map g (sort xs)) = mset (map g xs)" by simp
  have "sorted_wrt (\<lambda>x y. g x \<le> g y) (sort xs)"
  proof (rule sorted_wrt_mono_rel [of _ "(\<le>)"])
    show "sorted (sort xs)" by simp
    fix x y assume "x \<in> set (sort xs)" "y \<in> set (sort xs)" "x \<le> y"
    then show "g x \<le> g y" using assms by simp
  qed
  then show "sorted (map g (sort xs))" by (simp add: sorted_wrt_map)
qed

lemma rank_stable:
  fixes as :: "real list"
  assumes "\<And>a. a \<in> set as \<Longrightarrow> 0 \<le> a" "j < length as"
  shows "sort (map (zero_below (sort as ! j)) as) ! j = sort as ! j"
proof -
  define t where "t = sort as ! j"
  have "t \<in> set (sort as)" unfolding t_def using assms(2) by (intro nth_mem) simp
  then have t0: "0 \<le> t" using assms(1) by simp
  have "sort (map (zero_below t) as) = map (zero_below t) (sort as)"
  proof (rule sort_map_mono)
    fix x y assume "x \<in> set as" "y \<in> set as" "x \<le> y"
    then show "zero_below t x \<le> zero_below t y"
      using t0 assms(1) by (auto simp: zero_below_def)
  qed
  then have "sort (map (zero_below t) as) ! j = zero_below t (sort as ! j)"
    using assms(2) by simp
  then show ?thesis by (simp add: t_def zero_below_def)
qed

lemma zero_below_less: "0 \<le> a \<Longrightarrow> zero_below t a < t \<longleftrightarrow> a < t"
  by (auto simp: zero_below_def)

lemma abs_times_keep: "\<bar>x * keep_of (\<bar>x\<bar> < t)\<bar> = zero_below t \<bar>x\<bar>"
  by (simp add: keep_of_def float_of_def zero_below_def)

lemma l2_nonneg: "0 \<le> l2 xs"
  unfolding l2_def by (intro real_sqrt_ge_zero sum_list_nonneg) auto

lemma l2_times_keep: "l2 (map (\<lambda>x. x * keep_of (l2 row < t)) row) = zero_below t (l2 row)"
  by (simp add: keep_of_def float_of_def zero_below_def l2_def comp_def)

lemma prune_weight_idem:
  assumes "rect out k w" "0 < out" "prune_weight w f = Inr m"
  shows "prune_weight (mul_t w m) f = Inr m"
proof -
  define F where "F = (\<lambda>(j :: nat) (row :: real list). map (\<lambda>x. keep_of (\<bar>x\<bar> < sort (map abs row) ! j)) row)"
  define G where "G = (\<lambda>(j :: nat) (row :: real list). map (\<lambda>x. x * keep_of (\<bar>x\<bar> < sort (map abs row) ! j)) row)"
  from assms obtain j where j: "norm_index k (py_int (f * real k)) = Some j"
    and m: "m = map (F j) w"
    by (auto simp: prune_weight_rows [OF assms(1,2)] F_def split: option.splits)
  have jk: "j < k" using j by (rule norm_index_less)
  have w': "mul_t w (map (F j) w) = map (G j) w" unfolding F_def G_def by (rule mul_t_derived)
  have r': "rect out k (map (G j) w)" unfolding G_def using assms(1) by (rule rect_derived)
  have row: "F j (G j row) = F j row" if "row \<in> set w" for row
  proof -
    define t where "t = sort (map abs row) ! j"
    have len: "j < length (map abs row)" using that assms(1) jk by (simp add: rect_def)
    have nn: "\<And>a. a \<in> set (map abs row) \<Longrightarrow> 0 \<le> a" by auto
    have rs: "sort (map (zero_below t) (map abs row)) ! j = t"
      unfolding t_def using nn len by (rule rank_stable)
    have e: "map abs (map (\<lambda>x. x * keep_of (\<bar>x\<bar> < t)) row) = map (zero_below t) (map abs row)"
      by (simp add: abs_times_keep)
    have "sort (map abs (map (\<lambda>x. x * keep_of (\<bar>x\<bar> < t)) row)) ! j = t"
      by (simp only: e rs)
    then show ?thesis
      unfolding F_def G_def t_def [symmetric] by (simp add: abs_times_keep zero_below_less)
  qed
  have "prune_weight (map (G j) w) f = Inr (map (F j) (map (G j) w))"
    using prune_weight_rows [OF r' assms(2), of f] j by (simp add: F_def)
  also have "map (F j) (map (G j) w) = map (F j) w"
    using row by simp
  finally have "prune_weight (map (G j) w) f = Inr (map (F j) w)" .
  then show ?thesis unfolding m w' .
qed

lemma prune_unit_idem:
  assumes "rect out k w" "0 < out" "prune_unit w f = Inr m"
  shows "prune_unit (mul_t w m) f = Inr m"
proof -
  define F where "F = (\<lambda>t (row :: real list). map (\<lambda>x :: real. keep_of (l2 row < t)) row)"
  define G where "G = (\<lambda>t (row :: real list). map (\<lambda>x. x * keep_of (l2 row < t)) row)"
  from assms obtain j where j: "norm_index out (py_int (f * real out)) = Some j"
    and m0: "m = map (F (sort (map l2 w) ! j)) w"
    by (auto simp: prune_unit_rows [OF assms(1,2)] F_def split: option.splits)
  have jk: "j < out" using j by (rule norm_index_less)
  define t where "t = sort (map l2 w) ! j"
  have m: "m = map (F t) w" using m0 by (simp add: t_def)
  have w': "mul_t w (map (F t) w) = map (G t) w" unfolding F_def G_def by (rule mul_t_derived)
  have r': "rect out k (map (G t) w)" unfolding G_def using assms(1) by (rule rect_derived)
  have norms: "map l2 (map (G t) w) = map (zero_below t) (map l2 w)"
    by (simp add: l2_times_keep G_def)
  have len: "j < length (map l2 w)" using assms(1) jk by (simp add: rect_def)
  have nn: "\<And>a. a \<in> set (map l2 w) \<Longrightarrow> 0 \<le> a" using l2_nonneg by auto
  have rs: "sort (map (zero_below t) (map l2 w)) ! j = t"
    unfolding t_def using nn len by (rule rank_stable)
  have t': "sort (map l2 (map (G t) w)) ! j = t"
    by (simp only: norms rs)
  have row: "F t (G t row) = F t row" for row
    by (simp add: F_def G_def comp_def l2_times_keep zero_below_less l2_nonneg)
  have "prune_unit (map (G t) w) f = Inr (map (F (sort (map l2 (map (G t) w)) ! j)) (map (G t) w))"
    using prune_unit_rows [OF r' assms(2), of f] j by (simp add: F_def)
  also have "map (F (sort (map l2 (map (G t) w)) ! j)) (map (G t) w) = map (F t) w"
    unfolding t' using row by simp
  finally have "prune_unit (map (G t) w) f = Inr (map (F t) w)" .
  then show ?thesis unfolding m w' .
qed

lemma prune_idem:
  assumes "rect out k w" "prune w f g = Inr m"
  shows "prune (mul_t w m) f g = Inr m"
proof -
  have "w \<noteq> []" using assms(2)
    by (auto simp: prune_def prune_weight_def prune_unit_def split: if_splits)
  then have "0 < out" using assms(1) by (auto simp: rect_def)
  then show ?thesis
    using assms prune_weight_idem [of out k w f m] prune_unit_idem [of out k w f m]
    by (auto simp: prune_def split: if_splits)
qed

section \<open>Properties of the pruner\<close>

subsection \<open>Global pruning\<close>

lemma assign_masks_map:
  "assign_masks ls (pre @ map f (weights_of ls)) (length pre) = Inr (remask f ls)"
proof (induction ls arbitrary: pre)
  case Nil
  show ?case by (simp add: remask_def)
next
  case (Cons l ls)
  show ?case
  proof (cases l)
    case Plain
    then show ?thesis using Cons [of pre] by (simp add: remask_def and_then_def)
  next
    case (Masked w m)
    have "assign_masks ls ((pre @ [f w]) @ map f (weights_of ls)) (length (pre @ [f w]))
        = Inr (remask f ls)" by (rule Cons)
    then show ?thesis using Masked by (simp add: remask_def and_then_def nth_append)
  qed
qed

lemma global_prune_char:
  "global_prune ms pc =
     (if weights_of ms = [] then Inl (RuntimeError, ms)
      else (case norm_index (length (concat (map flatten (weights_of ms))))
                  (py_int (pc * real (length (concat (map flatten (weights_of ms)))))) of
              None \<Rightarrow> Inl (IndexError, ms)
            | Some j \<Rightarrow>
                Inr (remask (threshold_mask (sort (map abs (concat (map flatten (weights_of ms)))) ! j)) ms)))"
proof -
  have "\<And>t. assign_masks ms (map (map (map (\<lambda>x. float_of (\<bar>x\<bar> > t)))) (weights_of ms)) 0
      = Inr (remask (threshold_mask t) ms)"
    using assign_masks_map [of ms "[]"] by (simp add: threshold_mask_def [abs_def])
  then show ?thesis
    by (simp add: global_prune_def Let_def index_t_def split: option.splits)
qed

lemma weights_of_remask: "weights_of (remask f ms) = weights_of ms"
proof (induction ms)
  case Nil
  show ?case by (simp add: remask_def)
next
  case (Cons l ls)
  then show ?case by (cases l) (simp_all add: remask_def)
qed

lemma remask_remask: "remask f (remask g ms) = remask f ms"
  by (simp add: remask_def comp_def split: layer.splits cong: map_cong)

lemma global_prune_twice:
  "global_prune (model_after (global_prune ms pc)) pc = global_prune ms pc"
  by (simp add: global_prune_char model_after_def weights_of_remask remask_remask
      split: option.splits)

lemma count_float_of:
  "length (filter (\<lambda>x. x = 1) (map (\<lambda>x. float_of (P x)) xs)) = length (filter P xs)"
  by (induction xs) (simp_all add: float_of_def)

lemma count_ones_threshold_mask:
  "count_ones (threshold_mask t w) = length (filter (\<lambda>x. \<bar>x\<bar> > t) (flatten w))"
proof -
  have "flatten (threshold_mask t w) = map (\<lambda>x. float_of (\<bar>x\<bar> > t)) (flatten w)"
    by (simp add: flatten_def threshold_mask_def map_concat)
  then show ?thesis unfolding count_ones_def by (simp only: count_float_of)
qed

lemma kept_total_remask:
  "kept_total (remask (threshold_mask t) ms)
     = length (filter (\<lambda>x. \<bar>x\<bar> > t) (concat (map flatten (weights_of ms))))"
proof (induction ms)
  case Nil
  show ?case by (simp add: kept_total_def masks_of_def remask_def)
next
  case (Cons l ls)
  then show ?case
    by (cases l) (simp_all add: kept_total_def masks_of_def remask_def count_ones_threshold_mask)
qed

lemma length_filter_sort:
  fixes xs :: "real list"
  shows "length (filter P (sort xs)) = length (filter P xs)"
proof -
  have "mset (filter P (sort xs)) = mset (filter P xs)" by simp
  then show ?thesis by (metis size_mset)
qed

lemma filter_above_nth:
  fixes ys :: "real list"
  assumes "sorted ys" "distinct ys" "j < length ys"
  shows "filter (\<lambda>x. x > ys ! j) ys = drop (Suc j) ys"
proof -
  have low: "filter (\<lambda>x. x > ys ! j) (take (Suc j) ys) = []"
  proof -
    have "\<And>x. x \<in> set (take (Suc j) ys) \<Longrightarrow> x \<le> ys ! j"
    proof -
      fix x assume "x \<in> set (take (Suc j) ys)"
      then obtain i where "i < Suc j" "i < length ys" "x = ys ! i"
        by (auto simp: in_set_conv_nth)
      then show "x \<le> ys ! j" using assms(1,3) by (simp add: sorted_nth_mono)
    qed
    then have "\<forall>x \<in> set (take (Suc j) ys). \<not> ys ! j < x" by (simp add: not_less)
    then show ?thesis unfolding filter_empty_conv .
  qed
  have high: "filter (\<lambda>x. x > ys ! j) (drop (Suc j) ys) = drop (Suc j) ys"
  proof -
    have s: "sorted_wrt (<) ys" using assms(1,2) by (simp add: strict_sorted_iff)
    have "\<And>x. x \<in> set (drop (Suc j) ys) \<Longrightarrow> ys ! j < x"
    proof -
      fix x assume "x \<in> set (drop (Suc j) ys)"
      then obtain i where "i < length ys - Suc j" "x = ys ! (Suc j + i)"
        by (auto simp: in_set_conv_nth)
      then show "ys ! j < x" using sorted_wrt_nth_less [OF s, of j "Suc j + i"] by simp
    qed
    then show ?thesis by (simp add: filter_id_conv)
  qed
  have "filter (\<lambda>x. x > ys ! j) ys
      = filter (\<lambda>x. x > ys ! j) (take (Suc j) ys @ drop (Suc j) ys)" by simp
  also have "\<dots> = drop (Suc j) ys" unfolding filter_append low high by simp
  finally show ?thesis .
qed

lemma count_above_rank:
  fixes xs :: "real list"
  assumes "distinct xs" "j < length xs"
  shows "length (filter (\<lambda>x. x > sort xs ! j) xs) = length xs - Suc j"
proof -
  have "length (filter (\<lambda>x. x > sort xs ! j) xs)
      = length (filter (\<lambda>x. x > sort xs ! j) (sort xs))" by (simp add: length_filter_sort)
  also have "\<dots> = length (drop (Suc j) (sort xs))"
    using assms by (subst filter_above_nth) simp_all
  finally show ?thesis by simp
qed

lemma norm_index_fraction:
  assumes "0 \<le> f" "f < 1" "0 < n"
  shows "norm_index n (py_int (f * real n)) = Some (nat \<lfloor>f * real n\<rfloor>)"
proof -
  have a: "0 \<le> f * real n" using assms by simp
  have "f * real n < real n" using assms by simp
  then have "\<lfloor>f * real n\<rfloor> < int n" by (simp add: floor_less_iff)
  moreover have "0 \<le> \<lfloor>f * real n\<rfloor>" using a by simp
  ultimately show ?thesis using a by (simp add: norm_index_def py_int_def)
qed

lemma global_prune_kept_count:
  assumes "distinct (map abs (concat (map flatten (weights_of ms))))"
    and "concat (map flatten (weights_of ms)) \<noteq> []" "0 \<le> f" "f < 1"
  shows "\<exists>ms'. global_prune ms f = Inr ms'
       \<and> kept_total ms' = length (concat (map flatten (weights_of ms)))
             - Suc (nat \<lfloor>f * real (length (concat (map flatten (weights_of ms))))\<rfloor>)"
proof -
  define scores where "scores = concat (map flatten (weights_of ms))"
  define j where "j = nat \<lfloor>f * real (length scores)\<rfloor>"
  have n: "0 < length scores" using assms(2) by (simp add: scores_def)
  have w: "weights_of ms \<noteq> []" using assms(2) by auto
  have i: "norm_index (length scores) (py_int (f * real (length scores))) = Some j"
    unfolding j_def using assms(3,4) n by (rule norm_index_fraction)
  then have jl: "j < length scores" by (rule norm_index_less)
  have g: "global_prune ms f = Inr (remask (threshold_mask (sort (map abs scores) ! j)) ms)"
    using w i by (simp add: global_prune_char scores_def)
  have "kept_total (remask (threshold_mask (sort (map abs scores) ! j)) ms)
      = length (filter (\<lambda>x. \<bar>x\<bar> > sort (map abs scores) ! j) scores)"
    by (simp add: kept_total_remask scores_def)
  also have "\<dots> = length (filter (\<lambda>a. a > sort (map abs scores) ! j) (map abs scores))"
    by (simp add: filter_map comp_def)
  also have "\<dots> = length (map abs scores) - Suc j"
    using assms(1) jl by (intro count_above_rank) (simp_all add: scores_def)
  finally show ?thesis using g by (simp add: scores_def j_def)
qed


lemma global_prune_example:
  "global_prune example_model (1 / 2)
   = Inr [Masked [[1, - 4], [2, 5]] [[0, 1], [0, 1]], Plain, Masked [[3]] [[0]]]"
proof -
  have s: "concat (map flatten (weights_of example_model)) = [1, - 4, 2, 5, 3]"
    by (simp add: example_model_def flatten_def)
  have w: "weights_of example_model \<noteq> []" by (simp add: example_model_def)
  have n: "norm_index (length [1, - 4, 2, 5, 3 :: real])
             (py_int (1 / 2 * real (length [1, - 4, 2, 5, 3 :: real]))) = Some 2"
    by (simp add: py_int_def norm_index_def)
  have t: "sort (map abs [1, - 4, 2, 5, 3 :: real]) ! 2 = 3" by simp
  have "global_prune example_model (1 / 2) = Inr (remask (threshold_mask 3) example_model)"
    unfolding global_prune_char s n using w t by simp
  then show ?thesis
    by (simp add: example_model_def remask_def threshold_mask_def float_of_def)
qed

text \<open>
  C1 says that on tie-free weights \<open>global_prune\<close> keeps \<open>total - floor(f * total)\<close>
  weights. On the example model, five weights of magnitudes \<open>1\<close> to \<open>5\<close> and \<open>f = 1/2\<close>,
  that is \<open>5 - 2 = 3\<close>. The code takes the threshold \<open>3\<close> at rank \<open>2\<close> and keeps only the
  weights strictly above it, so the weight at the threshold goes too and \<open>2\<close> are kept.
  By \<open>global_prune_kept_count\<close> the count is one short on every tie-free model.
\<close>

theorem C1_global_prune_one_short:
  "global_prune example_model (1 / 2)
     = Inr [Masked [[1, - 4], [2, 5]] [[0, 1], [0, 1]], Plain, Masked [[3]] [[0]]]
   \<and> kept_total [Masked [[1, - 4], [2, 5]] [[0, 1], [0, 1]], Plain, Masked [[3]] [[0]]] = 2
   \<and> int (length (concat (map flatten (weights_of example_model))))
       - \<lfloor>1 / 2 * real (length (concat (map flatten (weights_of example_model))))\<rfloor> = 3"
proof -
  have "kept_total [Masked [[1, - 4], [2, 5]] [[0, 1], [0, 1]], Plain, Masked [[3]] [[0]]] = 2"
    by (simp add: kept_total_def masks_of_def count_ones_def flatten_def)
  moreover have "int (length (concat (map flatten (weights_of example_model))))
       - \<lfloor>1 / 2 * real (length (concat (map flatten (weights_of example_model))))\<rfloor> = 3"
    by (simp add: example_model_def flatten_def)
  ultimately show ?thesis using global_prune_example by simp
qed

subsection \<open>Unsupported pruning type\<close>

lemma prune_unsupported:
  "g \<noteq> ''weight'' \<Longrightarrow> g \<noteq> ''unit'' \<Longrightarrow> prune w perc g = Inl NotImplementedError"
  by (simp add: prune_def)

text \<open>
  A call of \<open>local_prune\<close> that raises does so at a mask-bearing layer that passed the
  guard; the layers before it are left as the pass over them assigned them, the failing
  layer and the layers behind it as they were.
\<close>

lemma and_then_Inl: "and_then l r = Inl (e, st) \<Longrightarrow> \<exists>st'. r = Inl (e, st') \<and> st = l # st'"
  by (auto simp: and_then_def split: sum.splits)

lemma local_prune_no_rollback:
  "local_prune P ms f = Inl (e, st) \<Longrightarrow>
     \<exists>pre w m post pre'.
        ms = pre @ Masked w m # post \<and> local_prune P pre f = Inr pre'
        \<and> st = pre' @ Masked w m # post \<and> below_final P m
        \<and> (if carry_mask P then prune (mul_t w m) f (prune_type P)
            else prune w f (prune_type P)) = Inl e"
proof (induction ms arbitrary: st)
  case Nil
  then show ?case by simp
next
  case (Cons l ls)
  show ?case
  proof (cases l)
    case Plain
    with Cons.prems obtain st' where r: "local_prune P ls f = Inl (e, st')" and st: "st = Plain # st'"
      by (auto dest: and_then_Inl)
    from Cons.IH [OF r] obtain pre w m post pre' where
      "ls = pre @ Masked w m # post" "local_prune P pre f = Inr pre'"
      "st' = pre' @ Masked w m # post" "below_final P m"
      "(if carry_mask P then prune (mul_t w m) f (prune_type P)
            else prune w f (prune_type P)) = Inl e" by blast
    then have "l # ls = (Plain # pre) @ Masked w m # post
        \<and> local_prune P (Plain # pre) f = Inr (Plain # pre')
        \<and> st = (Plain # pre') @ Masked w m # post \<and> below_final P m
        \<and> (if carry_mask P then prune (mul_t w m) f (prune_type P)
            else prune w f (prune_type P)) = Inl e"
      using Plain st by (simp add: and_then_def)
    then show ?thesis by blast
  next
    case (Masked v mk)
    define res where "res = (if carry_mask P then prune (mul_t v mk) f (prune_type P)
            else prune v f (prune_type P))"
    have step: "local_prune P (l # ls) f =
        (if below_final P mk then
           (case res of Inl e \<Rightarrow> Inl (e, Masked v mk # ls)
            | Inr mm \<Rightarrow> and_then (Masked v mm) (local_prune P ls f))
         else and_then (Masked v mk) (local_prune P ls f))"
      unfolding Masked res_def by simp
    show ?thesis
    proof (cases "below_final P mk \<and> (\<exists>e'. res = Inl e')")
      case True
      then obtain e' where b: "below_final P mk" and e': "res = Inl e'" by blast
      then have "e' = e" "st = Masked v mk # ls" using Cons.prems unfolding step by simp_all
      then have "l # ls = [] @ Masked v mk # ls \<and> local_prune P [] f = Inr []
        \<and> st = [] @ Masked v mk # ls \<and> below_final P mk
        \<and> (if carry_mask P then prune (mul_t v mk) f (prune_type P)
            else prune v f (prune_type P)) = Inl e"
        using b e' Masked by (simp add: res_def)
      then show ?thesis by blast
    next
      case False
      then obtain mm where mm: "local_prune P (l # ls) f = and_then (Masked v mm) (local_prune P ls f)"
        and head: "local_prune P [Masked v mk] f = Inr [Masked v mm]"
        unfolding step
        by (cases "below_final P mk"; cases res) (auto simp: res_def and_then_def)
      with Cons.prems obtain st' where r: "local_prune P ls f = Inl (e, st')"
        and st: "st = Masked v mm # st'"
        by (auto dest: and_then_Inl)
      from Cons.IH [OF r] obtain pre w m post pre' where
        p: "ls = pre @ Masked w m # post" "local_prune P pre f = Inr pre'"
        "st' = pre' @ Masked w m # post" "below_final P m"
        "(if carry_mask P then prune (mul_t w m) f (prune_type P)
              else prune w f (prune_type P)) = Inl e" by blast
      have "local_prune P (Masked v mk # pre) f = Inr (Masked v mm # pre')"
        using head p(2)
        by (cases "below_final P mk"; cases res) (auto simp: res_def and_then_def)
      then have "l # ls = (Masked v mk # pre) @ Masked w m # post
          \<and> local_prune P (Masked v mk # pre) f = Inr (Masked v mm # pre')
          \<and> st = (Masked v mm # pre') @ Masked w m # post \<and> below_final P m
          \<and> (if carry_mask P then prune (mul_t w m) f (prune_type P)
              else prune w f (prune_type P)) = Inl e"
        using p st Masked by simp
      then show ?thesis by blast
    qed
  qed
qed

text \<open>
  C8: for a pruning type other than \<open>weight\<close> and \<open>unit\<close>, \<open>prune\<close> raises the
  not-implemented error without computing a mask. In \<open>local_prune\<close> the error is raised at
  the first mask-bearing layer that passes the sparsity guard and reaches the caller; the
  failing layer keeps its mask and the layers before it keep what the pass assigned them,
  nothing is rolled back. With this error the layers before the failing one were only
  skipped, so the model is as it was. When no layer passes the guard the call returns the
  model unchanged.
\<close>

theorem C8_unsupported_type_raises:
  assumes "prune_type P \<noteq> ''weight''" "prune_type P \<noteq> ''unit''"
  shows "prune w perc (prune_type P) = Inl NotImplementedError
       \<and> local_prune P ms perc =
           (if \<exists>v m. Masked v m \<in> set ms \<and> below_final P m
            then Inl (NotImplementedError, ms) else Inr ms)
       \<and> (\<forall>e st. local_prune P ms perc = Inl (e, st) \<longrightarrow>
             (\<exists>pre v m post pre'.
                ms = pre @ Masked v m # post \<and> local_prune P pre perc = Inr pre'
                \<and> st = pre' @ Masked v m # post))"
proof -
  have a: "local_prune P ms perc =
           (if \<exists>v m. Masked v m \<in> set ms \<and> below_final P m
            then Inl (NotImplementedError, ms) else Inr ms)"
  proof (induction ms)
    case Nil
    show ?case by simp
  next
    case (Cons l ls)
    show ?case
    proof (cases l)
      case Plain
      then show ?thesis using Cons by (auto simp: and_then_def)
    next
      case (Masked v m)
      then show ?thesis using Cons assms
        by (auto simp: and_then_def prune_unsupported)
    qed
  qed
  have b: "\<forall>e st. local_prune P ms perc = Inl (e, st) \<longrightarrow>
             (\<exists>pre v m post pre'.
                ms = pre @ Masked v m # post \<and> local_prune P pre perc = Inr pre'
                \<and> st = pre' @ Masked v m # post)"
    using local_prune_no_rollback [of P ms perc] by blast
  have c: "prune w perc (prune_type P) = Inl NotImplementedError"
    using assms by (simp add: prune_unsupported)
  show ?thesis using a b c by (intro conjI)
qed

theorem C8_unsupported_type_raises_witness:
  "prune_type example_unsupported \<noteq> ''weight'' \<and> prune_type example_unsupported \<noteq> ''unit''
   \<and> prune [[1, 2]] (1 / 2) ''filter'' = Inl NotImplementedError
   \<and> local_prune example_unsupported [Plain, Masked [[1, 2]] [[1, 1]]] (1 / 2)
       = Inl (NotImplementedError, [Plain, Masked [[1, 2]] [[1, 1]]])"
proof -
  have a: "prune_type example_unsupported \<noteq> ''weight''"
    and b: "prune_type example_unsupported \<noteq> ''unit''"
    by (simp_all add: example_unsupported_def)
  have g: "below_final example_unsupported [[1, 1]]"
    by (simp add: below_final_def mask_sparsity_def numel_def flatten_def py_round2_def
        round_half_even_def example_unsupported_def)
  have t: "prune_type example_unsupported = ''filter''"
    by (simp add: example_unsupported_def)
  note inst = C8_unsupported_type_raises [OF a b, of "[[1, 2]]" "1 / 2"
        "[Plain, Masked [[1, 2]] [[1, 1]]]"]
  show ?thesis
    using a b g inst [THEN conjunct1] inst [THEN conjunct2, THEN conjunct1]
    by (simp add: t)
qed

subsection \<open>The ramping schedule leaves masks alone outside its recompute steps\<close>

text \<open>
  C4: in ramping mode, at every step outside the window \<open>start_step \<le> step < end_step\<close>
  and at every step inside it that is not a multiple of \<open>prune_freq\<close>, the model is left
  exactly as it was, so every mask persists from the last pruning. The call returns the
  model whenever the schedule value could be computed; otherwise it raises, still without
  touching a mask. In particular nothing is mutated at \<open>step = end_step\<close>.
\<close>

theorem C4_ramping_frame:
  assumes "\<not> (start_step P \<le> step \<and> step < end_step P)
           \<or> (prune_freq P \<noteq> 0 \<and> step mod prune_freq P \<noteq> 0)"
  shows "model_after (ramping_prune P ms step) = ms
       \<and> (\<forall>v. compute_sparsity P step = Inr v \<longrightarrow> ramping_prune P ms step = Inr ms)
       \<and> model_after (ramping_prune P ms (end_step P)) = ms"
  using assms
  by (auto simp: ramping_prune_def model_after_def Let_def split: sum.splits)

theorem C4_ramping_frame_witness:
  "ramping_prune example_ramping [Masked [[1, 2]] [[0, 1]]] 3 = Inr [Masked [[1, 2]] [[0, 1]]]"
proof -
  have h: "\<not> (start_step example_ramping \<le> 3 \<and> 3 < end_step example_ramping)
           \<or> (prune_freq example_ramping \<noteq> 0 \<and> 3 mod prune_freq example_ramping \<noteq> 0)"
    by (simp add: example_ramping_def)
  have "compute_sparsity example_ramping 3 = Inr (1 / 2 * sin (pi / 2 * real_of_int (3 mod 4) / real_of_int 4))"
    by (simp add: compute_sparsity_def example_ramping_def Let_def)
  then have c: "\<exists>v. compute_sparsity example_ramping 3 = Inr v" by blast
  show ?thesis using C4_ramping_frame [OF h, of "[Masked [[1, 2]] [[0, 1]]]"] c by blast
qed

subsection \<open>The cyclic ramps stay in range\<close>

lemma sin_quarter:
  fixes r c :: int
  assumes "c \<noteq> 0"
  shows "0 \<le> sin (pi / 2 * real_of_int (r mod c) / real_of_int c)
       \<and> sin (pi / 2 * real_of_int (r mod c) / real_of_int c) \<le> 1"
proof -
  define q where "q = real_of_int (r mod c) / real_of_int c"
  have q: "0 \<le> q \<and> q \<le> 1"
  proof (cases "0 < c")
    case True
    then have "0 \<le> r mod c" "r mod c \<le> c" by (simp_all add: less_imp_le)
    then show ?thesis using True by (simp add: q_def divide_le_eq)
  next
    case False
    then have c: "c < 0" using assms by simp
    then have "r mod c \<le> 0" "c \<le> r mod c" by (simp_all add: less_imp_le)
    then show ?thesis using c by (simp add: q_def divide_le_eq zero_le_divide_iff)
  qed
  have "0 \<le> pi / 2 * q" using q by (intro mult_nonneg_nonneg) simp_all
  moreover have "pi / 2 * q \<le> pi / 2 * 1" using q by (intro mult_left_mono) simp_all
  ultimately have s: "0 \<le> sin (pi / 2 * q)" by (intro sin_ge_zero) simp_all
  have e: "pi / 2 * real_of_int (r mod c) / real_of_int c = pi / 2 * q"
    by (simp add: q_def)
  show ?thesis unfolding e using s by (intro conjI sin_le_one)
qed

lemma scaled_unit:
  fixes f s :: real
  assumes "0 \<le> f" "0 \<le> s" "s \<le> 1"
  shows "0 \<le> f * s \<and> f * s \<le> f"
  using assms by (simp add: mult_left_le)

text \<open>
  C7: under the ramp types \<open>half_cycle\<close> and \<open>full_cycle\<close>, with a non-negative final
  sparsity and a cycle length other than zero (which the quotient in both formulas needs),
  \<open>compute_sparsity\<close> returns a value in \<open>[0, final_sparsity]\<close> at every step.
\<close>

theorem C7_cyclic_ramp_in_range:
  assumes "ramp_cycle_step P \<noteq> 0" "0 \<le> final_sparsity P"
    and "ramp_type P = ''half_cycle'' \<or> ramp_type P = ''full_cycle''"
  shows "\<exists>v. compute_sparsity P step = Inr v \<and> 0 \<le> v \<and> v \<le> final_sparsity P"
proof -
  from assms(3) show ?thesis
  proof
    assume h: "ramp_type P = ''half_cycle''"
    have "compute_sparsity P step = Inr (final_sparsity P *
        sin (pi / 2 * real_of_int (step mod ramp_cycle_step P) / real_of_int (ramp_cycle_step P)))"
      using assms(1) h by (simp add: compute_sparsity_def)
    then show ?thesis
      using sin_quarter [OF assms(1), of step] scaled_unit [OF assms(2)] by simp
  next
    assume f: "ramp_type P = ''full_cycle''"
    have "compute_sparsity P step = Inr (final_sparsity P *
        \<bar>sin (pi / 2 * (real_of_int step / real_of_int (ramp_cycle_step P)))\<bar>)"
      using assms(1) f by (simp add: compute_sparsity_def)
    then show ?thesis
      using scaled_unit [OF assms(2), of "\<bar>sin (pi / 2 * (real_of_int step / real_of_int (ramp_cycle_step P)))\<bar>"]
      by simp
  qed
qed

theorem C7_cyclic_ramp_in_range_witness:
  "\<exists>v. compute_sparsity example_ramping 7 = Inr v \<and> 0 \<le> v \<and> v \<le> 1 / 2"
proof -
  have a: "ramp_cycle_step example_ramping \<noteq> 0" "0 \<le> final_sparsity example_ramping"
    "ramp_type example_ramping = ''half_cycle'' \<or> ramp_type example_ramping = ''full_cycle''"
    by (simp_all add: example_ramping_def)
  have f: "final_sparsity example_ramping = 1 / 2" by (simp add: example_ramping_def)
  from C7_cyclic_ramp_in_range [OF a, of 7] show ?thesis unfolding f .
qed


subsection \<open>Single-shot pruning called twice\<close>

lemma model_after_and_then: "model_after (and_then l r) = l # model_after r"
  by (auto simp: model_after_def and_then_def split: sum.splits)

lemma model_after_simps:
  "model_after (Inr m) = m" "model_after (Inl (e, m)) = m"
  by (simp_all add: model_after_def)

lemma mul_t_ones_like: "mul_t w (ones_like w) = w"
proof -
  have "mul_t w (map (\<lambda>row. map (\<lambda>x. 1) row) w) = map (\<lambda>row. map (\<lambda>x. x * 1) row) w"
    by (rule mul_t_derived)
  then show ?thesis by (simp add: ones_like_def)
qed

lemma local_prune_twice:
  assumes "\<not> carry_mask P \<or> fresh ms"
  shows "local_prune P (model_after (local_prune P ms f)) f = local_prune P ms f"
  using assms
proof (induction ms)
  case Nil
  show ?case by (simp add: model_after_simps)
next
  case (Cons l ls)
  have tl: "\<not> carry_mask P \<or> fresh ls" using Cons.prems by (auto simp: fresh_def)
  note IH = Cons.IH [OF tl]
  show ?case
  proof (cases l)
    case Plain
    then show ?thesis using IH by (simp add: model_after_and_then)
  next
    case (Masked w m)
    define target where "target = (if carry_mask P then mul_t w m else w)"
    show ?thesis
    proof (cases "below_final P m")
      case False
      then show ?thesis using IH Masked by (simp add: model_after_and_then)
    next
      case True
      have step: "local_prune P (l # ls) f =
          (case prune target f (prune_type P) of
             Inl e \<Rightarrow> Inl (e, Masked w m # ls)
           | Inr mm \<Rightarrow> and_then (Masked w mm) (local_prune P ls f))"
        using True Masked by (cases "carry_mask P") (simp_all add: target_def)
      show ?thesis
      proof (cases "prune target f (prune_type P)")
        case (Inl e)
        have r: "local_prune P (l # ls) f = Inl (e, l # ls)"
          unfolding step using Inl Masked by simp
        show ?thesis by (simp only: r model_after_simps)
      next
        case (Inr m1)
        have first: "local_prune P (l # ls) f = and_then (Masked w m1) (local_prune P ls f)"
          unfolding step using Inr by simp
        have again: "below_final P m1 \<Longrightarrow>
            (if carry_mask P then prune (mul_t w m1) f (prune_type P)
             else prune w f (prune_type P)) = Inr m1"
        proof (cases "carry_mask P")
          case False
          then show ?thesis using Inr by (simp add: target_def)
        next
          case True
          then have "fresh (l # ls)" using Cons.prems by simp
          then have r: "rect (length w) (length (hd w)) w" and m: "m = ones_like w"
            using Masked by (auto simp: fresh_def rect_def)
          have "prune w f (prune_type P) = Inr m1"
            using Inr True by (simp add: target_def m mul_t_ones_like)
          then have "prune (mul_t w m1) f (prune_type P) = Inr m1"
            using r by (rule prune_idem [rotated])
          then show ?thesis using True by simp
        qed
        have "local_prune P (Masked w m1 # model_after (local_prune P ls f)) f
            = and_then (Masked w m1) (local_prune P (model_after (local_prune P ls f)) f)"
        proof (cases "below_final P m1")
          case True
          show ?thesis
            unfolding local_prune.simps again [OF True] using True by simp
        next
          case False
          then show ?thesis by simp
        qed
        then show ?thesis
          unfolding first model_after_and_then IH .
      qed
    qed
  qed
qed


text \<open>
  C5, amended: \<open>single_shot_prune\<close> returns the model unchanged at every step other than
  \<open>start_step\<close>. Called a second time at \<open>start_step\<close> on the model the first call left,
  it has the same outcome and leaves the same masks, when pruning is global, when the mask
  is not carried, or when the mask is carried and the model had not been pruned before the
  first call.
\<close>

theorem C5_single_shot_twice:
  "(step \<noteq> start_step P \<longrightarrow> single_shot_prune P ms step = Inr ms)
   \<and> (use_global_prune P \<or> \<not> carry_mask P \<or> fresh ms \<longrightarrow>
        single_shot_prune P (model_after (single_shot_prune P ms (start_step P))) (start_step P)
          = single_shot_prune P ms (start_step P))"
proof (intro conjI impI)
  assume "step \<noteq> start_step P"
  then show "single_shot_prune P ms step = Inr ms" by (simp add: single_shot_prune_def)
next
  assume a: "use_global_prune P \<or> \<not> carry_mask P \<or> fresh ms"
  show "single_shot_prune P (model_after (single_shot_prune P ms (start_step P))) (start_step P)
          = single_shot_prune P ms (start_step P)"
  proof (cases "use_global_prune P")
    case True
    then show ?thesis by (simp add: single_shot_prune_def global_prune_twice)
  next
    case False
    then have "\<not> carry_mask P \<or> fresh ms" using a by simp
    then show ?thesis using False by (simp add: single_shot_prune_def local_prune_twice)
  qed
qed

lemma prune_half_2x2:
  assumes "rect 2 2 w"
  shows "prune w (1 / 2) ''weight''
     = Inr (map (\<lambda>row. map (\<lambda>x. keep_of (\<bar>x\<bar> < sort (map abs row) ! 1)) row) w)"
proof -
  have "norm_index 2 (py_int (1 / 2 * real 2)) = Some 1"
    by (simp add: py_int_def norm_index_def)
  then show ?thesis using prune_weight_rows [OF assms, of "1 / 2"] by (simp add: prune_def)
qed

lemma below_final_example:
  "below_final example_carry [[0, 0], [1, 1]]" "below_final example_carry [[1, 1], [0, 1]]"
  "below_final example_carry [[1, 1], [1, 1]]"
  by (simp_all add: below_final_def mask_sparsity_def numel_def flatten_def py_round2_def
      round_half_even_def example_carry_def)

lemma carry_example_first:
  "local_prune example_carry [Masked [[1, 2], [3, 4]] [[0, 0], [1, 1]]] (1 / 2)
     = Inr [Masked [[1, 2], [3, 4]] [[1, 1], [0, 1]]]"
proof -
  have "prune (mul_t [[1, 2], [3, 4]] [[0, 0], [1, 1]]) (1 / 2) ''weight'' = Inr [[1, 1], [0, 1]]"
    by (subst prune_half_2x2) (simp_all add: mul_t_def rect_def keep_of_def float_of_def)
  then show ?thesis
    using below_final_example(1) by (simp add: example_carry_def and_then_def)
qed

lemma carry_example_second:
  "local_prune example_carry [Masked [[1, 2], [3, 4]] [[1, 1], [0, 1]]] (1 / 2)
     = Inr [Masked [[1, 2], [3, 4]] [[0, 1], [0, 1]]]"
proof -
  have "prune (mul_t [[1, 2], [3, 4]] [[1, 1], [0, 1]]) (1 / 2) ''weight'' = Inr [[0, 1], [0, 1]]"
    by (subst prune_half_2x2) (simp_all add: mul_t_def rect_def keep_of_def float_of_def)
  then show ?thesis
    using below_final_example(2) by (simp add: example_carry_def and_then_def)
qed

text \<open>
  C5, as the specification states it, covers every configuration. With the mask carried
  and a layer whose mask is already partly zero, the first call at \<open>start_step\<close> revives
  the masked row and the second call prunes again: the masks after the two calls differ.
\<close>

theorem C5_carry_mask_differs:
  "single_shot_prune example_carry [Masked [[1, 2], [3, 4]] [[0, 0], [1, 1]]] 0
     = Inr [Masked [[1, 2], [3, 4]] [[1, 1], [0, 1]]]
   \<and> single_shot_prune example_carry [Masked [[1, 2], [3, 4]] [[1, 1], [0, 1]]] 0
     = Inr [Masked [[1, 2], [3, 4]] [[0, 1], [0, 1]]]"
proof -
  have s: "single_shot_prune example_carry ms 0 = local_prune example_carry ms (1 / 2)" for ms
    by (simp add: single_shot_prune_def example_carry_def)
  show ?thesis
    unfolding s carry_example_first carry_example_second by simp
qed

theorem C5_single_shot_twice_witness:
  "single_shot_prune example_carry [Masked [[1, 2], [3, 4]] [[1, 1], [1, 1]]] 3
     = Inr [Masked [[1, 2], [3, 4]] [[1, 1], [1, 1]]]
   \<and> single_shot_prune example_carry
        (model_after (single_shot_prune example_carry [Masked [[1, 2], [3, 4]] [[1, 1], [1, 1]]]
           (start_step example_carry))) (start_step example_carry)
     = single_shot_prune example_carry [Masked [[1, 2], [3, 4]] [[1, 1], [1, 1]]]
         (start_step example_carry)"
proof -
  have a: "3 \<noteq> start_step example_carry" by (simp add: example_carry_def)
  have b: "fresh [Masked [[1, 2], [3, 4]] [[1, 1], [1, 1]]]"
    by (simp add: fresh_def ones_like_def)
  show ?thesis
    using a b C5_single_shot_twice [of 3 example_carry "[Masked [[1, 2], [3, 4]] [[1, 1], [1, 1]]]"]
    by blast
qed


subsection \<open>Carrying the mask never revives a weight\<close>

lemma count_below_rank:
  fixes xs :: "real list"
  assumes "j < length xs"
  shows "length (filter (\<lambda>x. x < sort xs ! j) xs) \<le> j"
proof -
  define ys where "ys = sort xs"
  have s: "sorted ys" and l: "j < length ys" using assms by (simp_all add: ys_def)
  have "\<And>x. x \<in> set (drop j ys) \<Longrightarrow> \<not> x < ys ! j"
  proof -
    fix x assume "x \<in> set (drop j ys)"
    then obtain i where "i < length ys - j" "x = ys ! (j + i)"
      by (auto simp: in_set_conv_nth)
    then have "ys ! j \<le> x" using s by (simp add: sorted_nth_mono)
    then show "\<not> x < ys ! j" by simp
  qed
  then have high: "filter (\<lambda>x. x < ys ! j) (drop j ys) = []"
    unfolding filter_empty_conv by blast
  have "filter (\<lambda>x. x < ys ! j) ys = filter (\<lambda>x. x < ys ! j) (take j ys @ drop j ys)"
    by simp
  also have "\<dots> = filter (\<lambda>x. x < ys ! j) (take j ys)"
    unfolding filter_append high by simp
  finally have "length (filter (\<lambda>x. x < ys ! j) ys) \<le> length (take j ys)"
    by (simp only: length_filter_le)
  then have "length (filter (\<lambda>x. x < ys ! j) ys) \<le> j" by simp
  then show ?thesis unfolding ys_def by (simp only: length_filter_sort)
qed

lemma count_upto_rank:
  fixes xs :: "real list"
  assumes "j < length xs"
  shows "Suc j \<le> length (filter (\<lambda>x. x \<le> sort xs ! j) xs)"
proof -
  define ys where "ys = sort xs"
  have s: "sorted ys" and l: "j < length ys" using assms by (simp_all add: ys_def)
  have "\<And>x. x \<in> set (take (Suc j) ys) \<Longrightarrow> x \<le> ys ! j"
  proof -
    fix x assume "x \<in> set (take (Suc j) ys)"
    then obtain i where "i < Suc j" "i < length ys" "x = ys ! i"
      by (auto simp: in_set_conv_nth)
    then show "x \<le> ys ! j" using s l by (simp add: sorted_nth_mono)
  qed
  then have low: "filter (\<lambda>x. x \<le> ys ! j) (take (Suc j) ys) = take (Suc j) ys"
    by (simp add: filter_id_conv)
  have "filter (\<lambda>x. x \<le> ys ! j) ys
      = filter (\<lambda>x. x \<le> ys ! j) (take (Suc j) ys @ drop (Suc j) ys)" by simp
  also have "\<dots> = take (Suc j) ys @ filter (\<lambda>x. x \<le> ys ! j) (drop (Suc j) ys)"
    unfolding filter_append low by simp
  finally have "length (take (Suc j) ys) \<le> length (filter (\<lambda>x. x \<le> ys ! j) ys)"
    by simp
  then have "Suc j \<le> length (filter (\<lambda>x. x \<le> ys ! j) ys)" using l by simp
  then show ?thesis unfolding ys_def by (simp only: length_filter_sort)
qed

lemma keep_shrinks:
  fixes a b :: "real list"
  assumes len: "length b = length a" and j: "j < length a"
    and a0: "\<And>x. x \<in> set a \<Longrightarrow> 0 \<le> x" and b0: "\<And>x. x \<in> set b \<Longrightarrow> 0 \<le> x"
    and pruned: "\<And>n. n < length a \<Longrightarrow> a ! n < sort a ! j \<Longrightarrow> b ! n = 0"
    and zero: "\<And>n. n < length a \<Longrightarrow> b ! n = 0 \<Longrightarrow> a ! n < sort a ! j \<or> a ! n = 0"
    and n: "n < length a" and kept: "\<not> b ! n < sort b ! j"
  shows "\<not> a ! n < sort a ! j"
proof
  assume below: "a ! n < sort a ! j"
  then have bn: "b ! n = 0" using pruned n by simp
  have t1: "0 < sort a ! j" using below a0 [of "a ! n"] n by auto
  have jb: "j < length b" using len j by simp
  have "sort b ! j \<in> set (sort b)" using jb by (intro nth_mem) simp
  then have "0 \<le> sort b ! j" using b0 by simp
  then have t2: "sort b ! j = 0" using kept bn by simp
  have sub: "{i. i < length b \<and> b ! i \<le> sort b ! j} \<subseteq> {i. i < length a \<and> a ! i < sort a ! j}"
  proof
    fix i assume "i \<in> {i. i < length b \<and> b ! i \<le> sort b ! j}"
    then have i: "i < length a" and "b ! i \<le> 0" using len t2 by simp_all
    moreover have "0 \<le> b ! i" using b0 i len by simp
    ultimately have "b ! i = 0" by simp
    then have "a ! i < sort a ! j \<or> a ! i = 0" using zero i by simp
    then show "i \<in> {i. i < length a \<and> a ! i < sort a ! j}" using i t1 by auto
  qed
  have "Suc j \<le> card {i. i < length b \<and> b ! i \<le> sort b ! j}"
    using count_upto_rank [OF jb] by (simp only: length_filter_conv_card)
  also have "\<dots> \<le> card {i. i < length a \<and> a ! i < sort a ! j}"
    using sub by (intro card_mono) simp_all
  also have "\<dots> \<le> j"
    using count_below_rank [OF j] by (simp only: length_filter_conv_card)
  finally show False by simp
qed

lemma count_ones_mono:
  assumes "length xs = length ys" "\<And>n. n < length xs \<Longrightarrow> xs ! n = (1::real) \<Longrightarrow> ys ! n = 1"
  shows "length (filter (\<lambda>x. x = 1) xs) \<le> length (filter (\<lambda>x. x = 1) ys)"
  using assms
proof (induction xs ys rule: list_induct2)
  case Nil
  show ?case by simp
next
  case (Cons x xs y ys)
  have "length (filter (\<lambda>x. x = 1) xs) \<le> length (filter (\<lambda>x. x = 1) ys)"
  proof (rule Cons.IH)
    fix n assume "n < length xs" "xs ! n = 1"
    then show "ys ! n = 1" using Cons.prems [of "Suc n"] by simp
  qed
  moreover have "x = 1 \<Longrightarrow> y = 1" using Cons.prems [of 0] by simp
  ultimately show ?case by auto
qed


lemma rect_mul_t:
  assumes "rect out k w" "rect out k m"
  shows "rect out k (mul_t w m)"
proof -
  have lw: "length w = out" and lm: "length m = out"
    and rw: "\<And>i. i < out \<Longrightarrow> length (w ! i) = k"
    and rm: "\<And>i. i < out \<Longrightarrow> length (m ! i) = k"
    using assms by (auto simp: rect_def)
  have len: "length (mul_t w m) = out" using lw lm by (simp add: mul_t_def)
  have "length row = k" if "row \<in> set (mul_t w m)" for row
  proof -
    from that obtain i where i: "i < out" and "row = mul_t w m ! i"
      using len by (auto simp: in_set_conv_nth)
    then have "row = map2 (\<lambda>x y. x * y) (w ! i) (m ! i)"
      using lw lm by (simp add: mul_t_def)
    then show ?thesis using rw [OF i] rm [OF i] by simp
  qed
  then show ?thesis using len by (simp add: rect_def)
qed

lemma nth_mul_t:
  assumes "rect out k w" "rect out k m" "i < out"
  shows "mul_t w m ! i = map2 (\<lambda>x y. x * y) (w ! i) (m ! i)"
  using assms by (simp add: rect_def mul_t_def)

lemma count_ones_rows:
  "count_ones m = sum_list (map (\<lambda>row. length (filter (\<lambda>x. x = 1) row)) m)"
  by (induction m) (simp_all add: count_ones_def flatten_def)

lemma sum_squares_0: "sum_list (map (\<lambda>x. x * x) xs) = (0::real) \<Longrightarrow> x \<in> set xs \<Longrightarrow> x = 0"
proof (induction xs)
  case Nil
  then show ?case by simp
next
  case (Cons y ys)
  have "0 \<le> sum_list (map (\<lambda>x. x * x) ys)" by (intro sum_list_nonneg) auto
  moreover have "0 \<le> y * y" by simp
  moreover have "y * y + sum_list (map (\<lambda>x. x * x) ys) = 0" using Cons.prems(1) by simp
  ultimately have "y * y = 0" "sum_list (map (\<lambda>x. x * x) ys) = 0" by linarith+
  then show ?case using Cons.IH Cons.prems(2) by auto
qed

lemma l2_eq_0: "l2 xs = 0 \<Longrightarrow> x \<in> set xs \<Longrightarrow> x = 0"
  using sum_squares_0 [of xs x] by (simp add: l2_def)

lemma l2_zeros: "(\<And>x. x \<in> set xs \<Longrightarrow> x = 0) \<Longrightarrow> l2 xs = 0"
  unfolding l2_def by (induction xs) simp_all

lemma weight_row_shrinks:
  fixes wrow mrow :: "real list"
  assumes len: "length mrow = length wrow" and j: "j < length wrow"
  defines "row0 \<equiv> map2 (\<lambda>x y. x * y) wrow mrow"
  defines "m1row \<equiv> map (\<lambda>x. keep_of (\<bar>x\<bar> < sort (map abs row0) ! j)) row0"
  defines "row1 \<equiv> map2 (\<lambda>x y. x * y) wrow m1row"
  defines "m2row \<equiv> map (\<lambda>x. keep_of (\<bar>x\<bar> < sort (map abs row1) ! j)) row1"
  shows "length (filter (\<lambda>x. x = 1) m2row) \<le> length (filter (\<lambda>x. x = 1) m1row)"
proof (rule count_ones_mono)
  have l0: "length row0 = length wrow" using len by (simp add: row0_def)
  have l1: "length m1row = length wrow" using l0 by (simp add: m1row_def)
  have l2: "length row1 = length wrow" using l1 by (simp add: row1_def)
  show "length m2row = length m1row" using l1 l2 by (simp add: m2row_def)
  fix n assume "n < length m2row" and one: "m2row ! n = 1"
  then have n: "n < length wrow" using l2 by (simp add: m2row_def)
  define a where "a = map abs row0"
  define b where "b = map abs row1"
  have r0: "row0 ! n = wrow ! n * mrow ! n" if "n < length wrow" for n
    using that len by (simp add: row0_def)
  have m1: "m1row ! n = keep_of (a ! n < sort a ! j)" if "n < length wrow" for n
    using that l0 by (simp add: m1row_def a_def)
  have r1: "row1 ! n = wrow ! n * keep_of (a ! n < sort a ! j)" if "n < length wrow" for n
    using that l1 m1 by (simp add: row1_def)
  have m2: "m2row ! n = keep_of (b ! n < sort b ! j)" if "n < length wrow" for n
    using that l2 by (simp add: m2row_def b_def)
  have kept: "\<not> b ! n < sort b ! j"
    using one m2 [OF n] by (auto simp: keep_of_def float_of_def split: if_splits)
  have "\<not> a ! n < sort a ! j"
  proof (rule keep_shrinks [of b a j n])
    show "length b = length a" using l0 l2 by (simp add: a_def b_def)
    show "j < length a" using j l0 by (simp add: a_def)
    show "\<And>x. x \<in> set a \<Longrightarrow> 0 \<le> x" by (auto simp: a_def)
    show "\<And>x. x \<in> set b \<Longrightarrow> 0 \<le> x" by (auto simp: b_def)
    show "n < length a" using n l0 by (simp add: a_def)
    show "\<not> b ! n < sort b ! j" by (rule kept)
  next
    fix i assume i: "i < length a" and "a ! i < sort a ! j"
    then have "row1 ! i = 0" using r1 [of i] l0 by (simp add: a_def keep_of_def float_of_def)
    then show "b ! i = 0" using i l0 l2 by (simp add: a_def b_def)
  next
    fix i assume i: "i < length a" and "b ! i = 0"
    then have iw: "i < length wrow" using l0 by (simp add: a_def)
    have "row1 ! i = 0" using \<open>b ! i = 0\<close> iw l2 by (simp add: b_def)
    then have "wrow ! i = 0 \<or> a ! i < sort a ! j"
      using r1 [OF iw] by (auto simp: keep_of_def float_of_def split: if_splits)
    moreover have "wrow ! i = 0 \<Longrightarrow> a ! i = 0"
      using r0 [OF iw] iw l0 by (simp add: a_def)
    ultimately show "a ! i < sort a ! j \<or> a ! i = 0" by blast
  qed
  then show "m1row ! n = 1" using m1 [OF n] by (simp add: keep_of_def float_of_def)
qed


lemma sum_list_nth_mono:
  fixes xs ys :: "nat list"
  assumes "length xs = length ys" "\<And>i. i < length xs \<Longrightarrow> xs ! i \<le> ys ! i"
  shows "sum_list xs \<le> sum_list ys"
  using assms
proof (induction xs ys rule: list_induct2)
  case Nil
  show ?case by simp
next
  case (Cons x xs y ys)
  have "sum_list xs \<le> sum_list ys"
  proof (rule Cons.IH)
    fix i assume "i < length xs"
    then show "xs ! i \<le> ys ! i" using Cons.prems [of "Suc i"] by simp
  qed
  moreover have "x \<le> y" using Cons.prems [of 0] by simp
  ultimately show ?case by simp
qed

lemma count_ones_rows_mono:
  assumes "length m2 = length m1"
    and "\<And>i. i < length m2 \<Longrightarrow>
           length (filter (\<lambda>x. x = 1) (m2 ! i)) \<le> length (filter (\<lambda>x. x = 1) (m1 ! i))"
  shows "count_ones m2 \<le> count_ones m1"
  unfolding count_ones_rows
  by (rule sum_list_nth_mono) (use assms in simp_all)

lemma prune_weight_shrinks:
  assumes w: "rect out k w" and m: "rect out k m" and out: "0 < out"
    and p1: "prune_weight (mul_t w m) f = Inr m1"
    and p2: "prune_weight (mul_t w m1) f = Inr m2"
  shows "count_ones m2 \<le> count_ones m1"
proof -
  define F where
    "F = (\<lambda>(j :: nat) (row :: real list). map (\<lambda>x. keep_of (\<bar>x\<bar> < sort (map abs row) ! j)) row)"
  have r0: "rect out k (mul_t w m)" using w m by (rule rect_mul_t)
  from p1 obtain j where j: "norm_index k (py_int (f * real k)) = Some j"
    and m1: "m1 = map (F j) (mul_t w m)"
    by (auto simp: prune_weight_rows [OF r0 out] F_def split: option.splits)
  have jk: "j < k" using j by (rule norm_index_less)
  have rm1: "rect out k m1" unfolding m1 F_def using r0 by (rule rect_derived)
  have r1: "rect out k (mul_t w m1)" using w rm1 by (rule rect_mul_t)
  have m2: "m2 = map (F j) (mul_t w m1)"
    using p2 j by (simp add: prune_weight_rows [OF r1 out] F_def)
  have l0: "length (mul_t w m) = out" using r0 unfolding rect_def by blast
  have l1: "length (mul_t w m1) = out" using r1 unfolding rect_def by blast
  have lm1: "length m1 = out" using rm1 unfolding rect_def by blast
  have lm2: "length m2 = out" unfolding m2 using l1 by simp
  show ?thesis
  proof (rule count_ones_rows_mono)
    show "length m2 = length m1" by (simp only: lm1 lm2)
    fix i assume "i < length m2"
    then have i: "i < out" by (simp only: lm2)
    have "m1 ! i = F j (mul_t w m ! i)" unfolding m1 using i l0 by simp
    then have a: "m1 ! i = F j (map2 (\<lambda>x y. x * y) (w ! i) (m ! i))"
      by (simp only: nth_mul_t [OF w m i])
    have "m2 ! i = F j (mul_t w m1 ! i)" unfolding m2 using i l1 by simp
    then have b: "m2 ! i = F j (map2 (\<lambda>x y. x * y) (w ! i) (m1 ! i))"
      by (simp only: nth_mul_t [OF w rm1 i])
    have lw: "length (w ! i) = k" and lm: "length (m ! i) = k"
      using w m i by (simp_all add: rect_def)
    show "length (filter (\<lambda>x. x = 1) (m2 ! i)) \<le> length (filter (\<lambda>x. x = 1) (m1 ! i))"
      unfolding b unfolding a F_def
      by (rule weight_row_shrinks) (simp_all add: lw lm jk)
  qed
qed


lemma map2_const_right:
  "length xs = length ys \<Longrightarrow> map2 f xs (map (\<lambda>y. c) ys) = map (\<lambda>x. f x c) xs"
  by (induction xs ys rule: list_induct2) simp_all

lemma map2_times_zeros:
  fixes xs ys :: "real list"
  assumes "\<And>x. x \<in> set xs \<Longrightarrow> x = 0"
  shows "z \<in> set (map2 (\<lambda>x y. x * y) xs ys) \<Longrightarrow> z = 0"
proof -
  assume "z \<in> set (map2 (\<lambda>x y. x * y) xs ys)"
  then obtain x y where "(x, y) \<in> set (zip xs ys)" "z = x * y" by auto
  then have "x \<in> set xs" by (auto dest: set_zip_leftD)
  then show "z = 0" using assms \<open>z = x * y\<close> by simp
qed

lemma prune_unit_shrinks:
  assumes w: "rect out k w" and m: "rect out k m" and out: "0 < out"
    and p1: "prune_unit (mul_t w m) f = Inr m1"
    and p2: "prune_unit (mul_t w m1) f = Inr m2"
  shows "count_ones m2 \<le> count_ones m1"
proof -
  define F where
    "F = (\<lambda>(t :: real) (row :: real list). map (\<lambda>x :: real. keep_of (l2 row < t)) row)"
  define a where "a = map l2 (mul_t w m)"
  define b where "b = map l2 (mul_t w m1)"
  have r0: "rect out k (mul_t w m)" using w m by (rule rect_mul_t)
  from p1 obtain j where j: "norm_index out (py_int (f * real out)) = Some j"
    and m1: "m1 = map (F (sort a ! j)) (mul_t w m)"
    by (auto simp: prune_unit_rows [OF r0 out] F_def a_def split: option.splits)
  have jk: "j < out" using j by (rule norm_index_less)
  have rm1: "rect out k m1" unfolding m1 F_def using r0 by (rule rect_derived)
  have r1: "rect out k (mul_t w m1)" using w rm1 by (rule rect_mul_t)
  have m2: "m2 = map (F (sort b ! j)) (mul_t w m1)"
    using p2 j by (simp add: prune_unit_rows [OF r1 out] F_def b_def)
  have l0: "length (mul_t w m) = out" using r0 unfolding rect_def by blast
  have l1: "length (mul_t w m1) = out" using r1 unfolding rect_def by blast
  have lm1: "length m1 = out" using rm1 unfolding rect_def by blast
  have lm2: "length m2 = out" unfolding m2 using l1 by simp
  have la: "length a = out" and lb: "length b = out" using l0 l1 by (simp_all add: a_def b_def)
  have lw: "length (w ! i) = k" and lm: "length (m ! i) = k" if "i < out" for i
    using w m that by (simp_all add: rect_def)
  have row0: "mul_t w m ! i = map2 (\<lambda>x y. x * y) (w ! i) (m ! i)" if "i < out" for i
    using w m that by (rule nth_mul_t)
  have len0: "length (mul_t w m ! i) = k" if "i < out" for i
    using row0 [OF that] lw [OF that] lm [OF that] by simp
  have m1i: "m1 ! i = map (\<lambda>x. keep_of (a ! i < sort a ! j)) (mul_t w m ! i)" if "i < out" for i
    unfolding m1 using that l0 by (simp add: F_def a_def)
  have row1: "mul_t w m1 ! i = map (\<lambda>x. x * keep_of (a ! i < sort a ! j)) (w ! i)"
    if "i < out" for i
  proof -
    have "mul_t w m1 ! i = map2 (\<lambda>x y. x * y) (w ! i) (m1 ! i)"
      using w rm1 that by (rule nth_mul_t)
    also have "\<dots> = map (\<lambda>x. x * keep_of (a ! i < sort a ! j)) (w ! i)"
      unfolding m1i [OF that] using len0 [OF that] lw [OF that]
      by (intro map2_const_right) simp
    finally show ?thesis .
  qed
  have m2i: "m2 ! i = map (\<lambda>x. keep_of (b ! i < sort b ! j)) (mul_t w m1 ! i)" if "i < out" for i
    unfolding m2 using that l1 by (simp add: F_def b_def)
  have ai: "a ! i = l2 (mul_t w m ! i)" and bi: "b ! i = l2 (mul_t w m1 ! i)" if "i < out" for i
    using that l0 l1 by (simp_all add: a_def b_def)
  have shrink: "\<not> a ! i < sort a ! j" if i: "i < out" and kept: "\<not> b ! i < sort b ! j" for i
  proof (rule keep_shrinks [of b a j i])
    show "length b = length a" by (simp only: la lb)
    show "j < length a" using jk by (simp only: la)
    show "\<And>x. x \<in> set a \<Longrightarrow> 0 \<le> x" using l2_nonneg by (auto simp: a_def)
    show "\<And>x. x \<in> set b \<Longrightarrow> 0 \<le> x" using l2_nonneg by (auto simp: b_def)
    show "i < length a" using i by (simp only: la)
    show "\<not> b ! i < sort b ! j" by (rule kept)
  next
    fix n assume "n < length a" and below: "a ! n < sort a ! j"
    then have n: "n < out" by (simp only: la)
    have "mul_t w m1 ! n = map (\<lambda>x. x * 0) (w ! n)"
      using row1 [OF n] below by (simp add: keep_of_def float_of_def)
    then have "l2 (mul_t w m1 ! n) = 0" by (intro l2_zeros) auto
    then show "b ! n = 0" by (simp only: bi [OF n])
  next
    fix n assume "n < length a" and zero: "b ! n = 0"
    then have n: "n < out" by (simp only: la)
    show "a ! n < sort a ! j \<or> a ! n = 0"
    proof (cases "a ! n < sort a ! j")
      case True
      then show ?thesis by simp
    next
      case False
      then have "mul_t w m1 ! n = w ! n"
        using row1 [OF n] by (simp add: keep_of_def float_of_def)
      then have "l2 (w ! n) = 0" using zero bi [OF n] by simp
      then have "\<And>x. x \<in> set (w ! n) \<Longrightarrow> x = 0" by (rule l2_eq_0)
      then have "\<And>z. z \<in> set (map2 (\<lambda>x y. x * y) (w ! n) (m ! n)) \<Longrightarrow> z = 0"
        by (rule map2_times_zeros)
      then have "l2 (map2 (\<lambda>x y. x * y) (w ! n) (m ! n)) = 0" by (rule l2_zeros)
      then have "a ! n = 0" by (simp only: ai [OF n] row0 [OF n])
      then show ?thesis by simp
    qed
  qed
  show ?thesis
  proof (rule count_ones_rows_mono)
    show "length m2 = length m1" by (simp only: lm1 lm2)
    fix i assume "i < length m2"
    then have i: "i < out" by (simp only: lm2)
    have len1: "length (mul_t w m1 ! i) = k" using row1 [OF i] lw [OF i] by simp
    show "length (filter (\<lambda>x. x = 1) (m2 ! i)) \<le> length (filter (\<lambda>x. x = 1) (m1 ! i))"
    proof (cases "b ! i < sort b ! j")
      case True
      then have "filter (\<lambda>x. x = 1) (m2 ! i) = []"
        unfolding m2i [OF i] by (simp add: keep_of_def float_of_def filter_empty_conv)
      then show ?thesis by simp
    next
      case False
      then have "\<not> a ! i < sort a ! j" using i by (intro shrink)
      then have "filter (\<lambda>x. x = 1) (m1 ! i) = m1 ! i"
        unfolding m1i [OF i] by (simp add: keep_of_def float_of_def filter_id_conv)
      then have "length (filter (\<lambda>x. x = 1) (m1 ! i)) = k"
        using m1i [OF i] len0 [OF i] by simp
      moreover have "length (filter (\<lambda>x. x = 1) (m2 ! i)) \<le> length (m2 ! i)"
        by (rule length_filter_le)
      moreover have "length (m2 ! i) = k" using m2i [OF i] len1 by simp
      ultimately show ?thesis by simp
    qed
  qed
qed

lemma prune_shrinks:
  assumes "rect out k w" "rect out k m"
    and "prune (mul_t w m) f g = Inr m1" "prune (mul_t w m1) f g = Inr m2"
  shows "count_ones m2 \<le> count_ones m1"
proof -
  have "mul_t w m \<noteq> []" using assms(3)
    by (auto simp: prune_def prune_weight_def prune_unit_def split: if_splits)
  moreover have "rect out k (mul_t w m)" using assms(1,2) by (rule rect_mul_t)
  ultimately have "0 < out" by (auto simp: rect_def)
  then show ?thesis
    using assms prune_weight_shrinks [of out k w m f m1 m2]
      prune_unit_shrinks [of out k w m f m1 m2]
    by (auto simp: prune_def split: if_splits)
qed


lemma no_more_ones_refl: "no_more_ones l l"
  by (cases l) (simp_all add: no_more_ones_def)

lemma no_more_ones_refl_list: "list_all2 no_more_ones ms ms"
  by (simp add: list_all2_refl no_more_ones_refl)

text \<open>
  C6: with \<open>carry_mask\<close> enabled, on a model whose masks have the shape of their weights,
  invoking \<open>local_prune\<close> a second time with the same fraction (any fraction, so every one
  in \<open>[0, 1)\<close>) on the model the first invocation left, layers correspond one to one and
  no layer's mask has more ones than after the first invocation. The second invocation
  computes its magnitudes on \<open>weight * mask\<close>, and the comparison covers the state left
  by an invocation that raised as well.
\<close>

theorem C6_carry_mask_monotone:
  assumes c: "carry_mask P" and "shaped ms"
  shows "list_all2 no_more_ones
           (model_after (local_prune P (model_after (local_prune P ms f)) f))
           (model_after (local_prune P ms f))"
  using assms(2)
proof (induction ms)
  case Nil
  show ?case by (simp add: model_after_simps)
next
  case (Cons l ls)
  have "shaped ls" using Cons.prems by (simp add: shaped_def)
  then have IH: "list_all2 no_more_ones
           (model_after (local_prune P (model_after (local_prune P ls f)) f))
           (model_after (local_prune P ls f))" by (rule Cons.IH)
  define R where "R = (\<lambda>xs. model_after (local_prune P xs f))"
  have IH': "list_all2 no_more_ones (R (R ls)) (R ls)" using IH by (simp add: R_def)
  have skip: "R (Masked v mk # xs) = Masked v mk # R xs" if "\<not> below_final P mk" for v mk xs
    using that by (simp add: R_def model_after_and_then)
  have fail: "R (Masked v mk # xs) = Masked v mk # xs"
    if "below_final P mk" "prune (mul_t v mk) f (prune_type P) = Inl e" for v mk xs e
    using that c by (simp add: R_def model_after_simps)
  have pass: "R (Masked v mk # xs) = Masked v mk' # R xs"
    if "below_final P mk" "prune (mul_t v mk) f (prune_type P) = Inr mk'" for v mk xs mk'
    using that c by (simp add: R_def model_after_and_then)
  have goal: "list_all2 no_more_ones (R (R (l # ls))) (R (l # ls))"
  proof (cases l)
    case Plain
    have "R (Plain # xs) = Plain # R xs" for xs
      by (simp add: R_def model_after_and_then)
    then show ?thesis using IH' Plain by (simp add: no_more_ones_refl)
  next
    case (Masked w m)
    have sh: "rect (length w) (length (hd w)) w" "rect (length w) (length (hd w)) m"
      using Cons.prems Masked by (simp_all add: shaped_def)
    show ?thesis
    proof (cases "below_final P m")
      case False
      then show ?thesis
        unfolding Masked using IH' by (simp add: skip no_more_ones_refl)
    next
      case True
      show ?thesis
      proof (cases "prune (mul_t w m) f (prune_type P)")
        case (Inl e)
        have "R (Masked w m # ls) = Masked w m # ls" using True Inl by (rule fail)
        then show ?thesis unfolding Masked by (simp add: no_more_ones_refl_list no_more_ones_refl)
      next
        case (Inr m1)
        have first: "R (Masked w m # ls) = Masked w m1 # R ls" using True Inr by (rule pass)
        show ?thesis
        proof (cases "below_final P m1")
          case False
          then show ?thesis
            unfolding Masked first using IH' by (simp add: skip no_more_ones_refl)
        next
          case b1: True
          show ?thesis
          proof (cases "prune (mul_t w m1) f (prune_type P)")
            case (Inl e)
            have "R (Masked w m1 # R ls) = Masked w m1 # R ls" using b1 Inl by (rule fail)
            then show ?thesis unfolding Masked first by (simp add: no_more_ones_refl_list no_more_ones_refl)
          next
            case m2: (Inr m2)
            have second: "R (Masked w m1 # R ls) = Masked w m2 # R (R ls)"
              using b1 m2 by (rule pass)
            have "count_ones m2 \<le> count_ones m1"
              using sh Inr m2 by (rule prune_shrinks)
            then show ?thesis
              unfolding Masked first second using IH' by (simp add: no_more_ones_def)
          qed
        qed
      qed
    qed
  qed
  then show ?case by (simp add: R_def)
qed

theorem C6_carry_mask_monotone_witness:
  "carry_mask example_carry \<and> shaped [Masked [[1, 2], [3, 4]] [[0, 0], [1, 1]]]
   \<and> list_all2 no_more_ones [Masked [[1, 2], [3, 4]] [[0, 1], [0, 1]]]
        [Masked [[1, 2], [3, 4]] [[1, 1], [0, 1]]]"
proof -
  have c: "carry_mask example_carry" by (simp add: example_carry_def)
  have s: "shaped [Masked [[1, 2], [3, 4]] [[0, 0], [1, 1]]]"
    by (simp add: shaped_def rect_def)
  show ?thesis
    using c s C6_carry_mask_monotone [OF c s, of "1 / 2"]
    unfolding carry_example_first carry_example_second model_after_simps by simp
qed

section \<open>Properties of the PGD attack\<close>

subsection \<open>Rounding to single precision\<close>

lemma rhe_bounds: "\<lfloor>z\<rfloor> \<le> round_half_even z \<and> round_half_even z \<le> \<lfloor>z\<rfloor> + 1"
  by (simp add: round_half_even_def Let_def)

lemma rhe_error: "\<bar>real_of_int (round_half_even z) - z\<bar> \<le> 1 / 2"
proof -
  have "real_of_int \<lfloor>z\<rfloor> \<le> z" "z < real_of_int \<lfloor>z\<rfloor> + 1" by linarith+
  then show ?thesis by (auto simp: round_half_even_def Let_def)
qed

lemma rhe_nonpos: "z \<le> 0 \<Longrightarrow> round_half_even z \<le> 0"
proof -
  assume z: "z \<le> 0"
  have f: "real_of_int \<lfloor>z\<rfloor> \<le> z" by linarith
  show ?thesis
  proof (cases "z = real_of_int \<lfloor>z\<rfloor>")
    case True
    then have "round_half_even z = \<lfloor>z\<rfloor>" by (simp add: round_half_even_def Let_def)
    then show ?thesis using z by (simp add: floor_le_zero)
  next
    case False
    then have "real_of_int \<lfloor>z\<rfloor> < 0" using f z by linarith
    then have "\<lfloor>z\<rfloor> + 1 \<le> 0" by linarith
    then show ?thesis using rhe_bounds [of z] by linarith
  qed
qed

lemma rhe_nonneg: "0 \<le> z \<Longrightarrow> 0 \<le> round_half_even z"
  using rhe_bounds [of z] by (simp add: order_trans [of 0 "\<lfloor>z\<rfloor>"])

lemma f32_ulp_pos: "0 < f32_ulp x"
  by (simp add: f32_ulp_def)

lemma f32_nonpos: "x \<le> 0 \<Longrightarrow> f32 x \<le> 0"
proof -
  assume "x \<le> 0"
  then have "x / f32_ulp x \<le> 0" using f32_ulp_pos [of x] by (simp add: divide_le_0_iff)
  then have "real_of_int (round_half_even (x / f32_ulp x)) \<le> 0"
    using rhe_nonpos by simp
  then show ?thesis using f32_ulp_pos [of x] by (simp add: f32_def mult_le_0_iff)
qed

lemma f32_nonneg: "0 \<le> x \<Longrightarrow> 0 \<le> f32 x"
proof -
  assume "0 \<le> x"
  then have "0 \<le> x / f32_ulp x" using f32_ulp_pos [of x] by simp
  then have "0 \<le> real_of_int (round_half_even (x / f32_ulp x))"
    using rhe_nonneg by simp
  then show ?thesis using f32_ulp_pos [of x] by (simp add: f32_def)
qed

lemma f32_error: "\<bar>f32 x - x\<bar> \<le> f32_ulp x / 2"
proof (cases "x = 0")
  case True
  then show ?thesis using f32_ulp_pos [of x] by (simp add: f32_def)
next
  case False
  define u where "u = f32_ulp x"
  have u: "0 < u" by (simp add: u_def f32_ulp_pos)
  have "f32 x - x = (real_of_int (round_half_even (x / u)) - x / u) * u"
    using False u by (simp add: f32_def u_def algebra_simps)
  then have "\<bar>f32 x - x\<bar> = \<bar>real_of_int (round_half_even (x / u)) - x / u\<bar> * u"
    using u by (simp add: abs_mult)
  also have "\<dots> \<le> 1 / 2 * u"
    using rhe_error [of "x / u"] u by (intro mult_right_mono) simp_all
  finally show ?thesis by (simp add: u_def)
qed

lemma f32_exponent_eq:
  assumes "2 powr real_of_int e \<le> \<bar>x\<bar>" "\<bar>x\<bar> < 2 powr real_of_int (e + 1)" "- 126 \<le> e"
  shows "f32_exponent x = e"
proof -
  have "0 < (2::real) powr real_of_int e" by simp
  then have pos: "0 < \<bar>x\<bar>" using assms(1) by linarith
  have "real_of_int e \<le> log 2 \<bar>x\<bar>" using assms(1) pos by (simp add: le_log_iff)
  moreover have "log 2 \<bar>x\<bar> < real_of_int e + 1"
    using assms(2) pos by (simp add: log_less_iff)
  ultimately have "\<lfloor>log 2 \<bar>x\<bar>\<rfloor> = e" by (intro floor_unique) simp_all
  then show ?thesis using assms(3) by (simp add: f32_exponent_def)
qed

lemma f32_exponent_unit:
  assumes "0 < x" "x < 1"
  shows "f32_exponent x \<le> - 1"
proof -
  have "log 2 \<bar>x\<bar> < 0" using assms by simp
  then have "\<lfloor>log 2 \<bar>x\<bar>\<rfloor> \<le> - 1" by (simp add: floor_le_iff)
  then show ?thesis by (simp add: f32_exponent_def)
qed

lemma f32_error_unit:
  assumes "0 \<le> x" "x < 1"
  shows "\<bar>f32 x - x\<bar> \<le> 1 / 2 ^ 25"
proof (cases "x = 0")
  case True
  then show ?thesis by (simp add: f32_def)
next
  case False
  then have "f32_exponent x \<le> - 1" using assms by (intro f32_exponent_unit) simp_all
  then have "real_of_int (f32_exponent x - 23) \<le> - 24" by simp
  then have "f32_ulp x \<le> 2 powr (- 24)" unfolding f32_ulp_def by (intro powr_mono) simp_all
  also have "(2::real) powr (- 24) = 1 / 2 ^ 24" by (simp add: powr_minus_divide)
  finally have "f32_ulp x / 2 \<le> 1 / 2 ^ 25" by simp
  then show ?thesis using f32_error [of x] by linarith
qed

lemma f32_ge_one:
  assumes "1 \<le> x" "x < 2"
  shows "1 \<le> f32 x"
proof -
  have e: "f32_exponent x = 0" using assms by (intro f32_exponent_eq) simp_all
  have u: "f32_ulp x = 1 / 2 ^ 23" by (simp add: f32_ulp_def e powr_minus_divide)
  have "(2::real) ^ 23 \<le> x / f32_ulp x" using assms(1) by (simp add: u)
  then have "2 ^ 23 \<le> \<lfloor>x / f32_ulp x\<rfloor>" by (simp add: le_floor_iff)
  then have "2 ^ 23 \<le> round_half_even (x / f32_ulp x)"
    using rhe_bounds [of "x / f32_ulp x"] by linarith
  then have "(2::real) ^ 23 \<le> real_of_int (round_half_even (x / f32_ulp x))"
    by (metis of_int_le_iff of_int_numeral of_int_power)
  then have "2 ^ 23 * (1 / 2 ^ 23) \<le> real_of_int (round_half_even (x / f32_ulp x)) * (1 / 2 ^ 23 :: real)"
    by (intro mult_right_mono) simp_all
  then show ?thesis using assms(1) by (simp add: f32_def u)
qed


lemma clamp_unit: "0 \<le> clamp y 0 1 \<and> clamp y 0 1 \<le> 1"
  by (simp add: clamp_def)

lemma clamp_budget: "0 \<le> E \<Longrightarrow> - E \<le> clamp y (- E) E \<and> clamp y (- E) E \<le> E"
  by (auto simp: clamp_def min_def max_def)

lemma project_f32:
  assumes x: "0 \<le> x" "x \<le> 1" and E: "0 \<le> E" and d: "- E \<le> d" "d \<le> E"
  shows "\<bar>clamp (f32 (x + d)) 0 1 - x\<bar> \<le> E + 1 / 2 ^ 25"
proof (cases "1 \<le> E")
  case True
  have "\<bar>clamp (f32 (x + d)) 0 1 - x\<bar> \<le> 1"
    using clamp_unit [of "f32 (x + d)"] x by linarith
  then show ?thesis using True by simp
next
  case False
  then have s: "- 1 < x + d" "x + d < 2" using x d by linarith+
  consider "x + d < 0" | "0 \<le> x + d" "x + d < 1" | "1 \<le> x + d" by linarith
  then show ?thesis
  proof cases
    case 1
    then have "f32 (x + d) \<le> 0" by (intro f32_nonpos) simp
    then have "clamp (f32 (x + d)) 0 1 = 0" by (simp add: clamp_def)
    then show ?thesis using 1 x d by simp
  next
    case 2
    then have "\<bar>f32 (x + d) - (x + d)\<bar> \<le> 1 / 2 ^ 25" by (rule f32_error_unit)
    moreover have "\<bar>clamp (f32 (x + d)) 0 1 - x\<bar> \<le> \<bar>f32 (x + d) - x\<bar>"
      using x by (auto simp: clamp_def min_def max_def)
    ultimately show ?thesis using d by linarith
  next
    case 3
    then have "1 \<le> f32 (x + d)" using s by (intro f32_ge_one)
    then have "clamp (f32 (x + d)) 0 1 = 1" by (simp add: clamp_def)
    then show ?thesis using 3 x d by simp
  qed
qed

lemma f32_one: "f32 1 = 1"
proof -
  have e: "f32_exponent 1 = 0" by (intro f32_exponent_eq) simp_all
  have u: "f32_ulp 1 = 1 / 2 ^ 23" by (simp add: f32_ulp_def e powr_minus_divide)
  show ?thesis by (simp add: f32_def u round_half_even_def)
qed

lemma f32_three_tenths: "f32 (3 / 10) = 5033165 / 16777216"
proof -
  have e: "f32_exponent (3 / 10) = - 2"
    by (intro f32_exponent_eq) (simp_all add: powr_minus_divide)
  have u: "f32_ulp (3 / 10) = 1 / 2 ^ 25" by (simp add: f32_ulp_def e powr_minus_divide)
  have "\<lfloor>(3 / 10 :: real) / (1 / 2 ^ 25)\<rfloor> = 10066329" by (simp add: floor_unique)
  then have "round_half_even ((3 / 10) / (1 / 2 ^ 25)) = 10066330"
    by (simp add: round_half_even_def Let_def)
  then show ?thesis by (simp add: f32_def u)
qed

lemma f32_fixed: "f32 (5033165 / 16777216) = 5033165 / 16777216"
proof -
  have e: "f32_exponent (5033165 / 16777216) = - 2"
    by (intro f32_exponent_eq) (simp_all add: powr_minus_divide)
  have u: "f32_ulp (5033165 / 16777216) = 1 / 2 ^ 25"
    by (simp add: f32_ulp_def e powr_minus_divide)
  have "round_half_even ((5033165 / 16777216) / (1 / 2 ^ 25)) = 10066330"
    by (simp add: round_half_even_def Let_def)
  then show ?thesis by (simp add: f32_def u)
qed


subsection \<open>The adversarial batch stays near the ball\<close>

lemma pgd_update_near_ball:
  assumes E: "0 \<le> eps" and im: "\<forall>x \<in> set images. 0 \<le> x \<and> x \<le> 1"
    and la: "length adv = length images" and lg: "length g = length adv"
  shows "in_ball (f32 eps + 1 / 2 ^ 25) images (pgd_update alpha eps images adv g)"
proof -
  have E': "0 \<le> f32 eps" using E by (rule f32_nonneg)
  have len: "length (pgd_update alpha eps images adv g) = length images"
    using la lg by (simp add: pgd_update_def Let_def)
  have elt: "0 \<le> pgd_update alpha eps images adv g ! i
      \<and> pgd_update alpha eps images adv g ! i \<le> 1
      \<and> \<bar>pgd_update alpha eps images adv g ! i - images ! i\<bar> \<le> f32 eps + 1 / 2 ^ 25"
    if i: "i < length images" for i
  proof -
    define d where
      "d = clamp (f32 (f32 (adv ! i + f32 (f32 alpha * sgn (g ! i))) - images ! i)) (- f32 eps) (f32 eps)"
    have u: "pgd_update alpha eps images adv g ! i = clamp (f32 (images ! i + d)) 0 1"
      using la lg i by (simp add: pgd_update_def Let_def d_def)
    have x: "0 \<le> images ! i" "images ! i \<le> 1" using im i by simp_all
    have d: "- f32 eps \<le> d" "d \<le> f32 eps"
      using clamp_budget [OF E'] by (simp_all add: d_def)
    show ?thesis
      unfolding u using clamp_unit [of "f32 (images ! i + d)"] project_f32 [OF x E' d]
      by simp
  qed
  show ?thesis unfolding in_ball_def using len elt by blast
qed

lemma start_near_ball:
  assumes E: "0 \<le> eps" and im: "\<forall>x \<in> set images. 0 \<le> x \<and> x \<le> 1"
    and ln: "length noise = length images"
    and no: "\<forall>u \<in> set noise. - f32 eps \<le> u \<and> u \<le> f32 eps"
  shows "in_ball (f32 eps + 1 / 2 ^ 25) images
           (map (\<lambda>a. clamp a 0 1) (map2 (\<lambda>a u. f32 (a + u)) images noise))"
    and "in_ball (f32 eps + 1 / 2 ^ 25) images images"
proof -
  have E': "0 \<le> f32 eps" using E by (rule f32_nonneg)
  let ?s = "map (\<lambda>a. clamp a 0 1) (map2 (\<lambda>a u. f32 (a + u)) images noise)"
  have len: "length ?s = length images" using ln by simp
  have elt: "0 \<le> ?s ! i \<and> ?s ! i \<le> 1 \<and> \<bar>?s ! i - images ! i\<bar> \<le> f32 eps + 1 / 2 ^ 25"
    if i: "i < length images" for i
  proof -
    have u: "?s ! i = clamp (f32 (images ! i + noise ! i)) 0 1" using ln i by simp
    have x: "0 \<le> images ! i" "images ! i \<le> 1" using im i by simp_all
    have d: "- f32 eps \<le> noise ! i" "noise ! i \<le> f32 eps" using ln no i by simp_all
    show ?thesis
      unfolding u using clamp_unit [of "f32 (images ! i + noise ! i)"] project_f32 [OF x E' d]
      by simp
  qed
  show "in_ball (f32 eps + 1 / 2 ^ 25) images ?s"
    unfolding in_ball_def using len elt by blast
  show "in_ball (f32 eps + 1 / 2 ^ 25) images images"
    using E' im by (simp add: in_ball_def)
qed

lemma pgd_loop_near_ball:
  assumes E: "0 \<le> eps" and im: "\<forall>x \<in> set images. 0 \<le> x \<and> x \<le> 1"
    and sh: "\<forall>m x g m'. grad m x labels = (Inr g, m') \<longrightarrow> length g = length x"
  shows "length adv = length images \<Longrightarrow> in_ball (f32 eps + 1 / 2 ^ 25) images adv \<Longrightarrow>
         pgd_loop n grad model labels alpha eps images adv = (Inr res, model') \<Longrightarrow>
         in_ball (f32 eps + 1 / 2 ^ 25) images res"
proof (induction n arbitrary: adv model)
  case 0
  then show ?case by simp
next
  case (Suc n)
  from Suc.prems(3) obtain g m1 where g: "grad model adv labels = (Inr g, m1)"
    and r: "pgd_loop n grad m1 labels alpha eps images (pgd_update alpha eps images adv g)
              = (Inr res, model')"
    by (auto split: prod.splits sum.splits)
  have lg: "length g = length adv" using sh g by blast
  have b: "in_ball (f32 eps + 1 / 2 ^ 25) images (pgd_update alpha eps images adv g)"
    using E im Suc.prems(1) lg by (rule pgd_update_near_ball)
  then have l: "length (pgd_update alpha eps images adv g) = length images"
    by (simp add: in_ball_def)
  show ?case using l b r by (rule Suc.IH)
qed

lemma pgd_loop_returns:
  assumes "\<forall>m x. \<exists>g m'. grad m x labels = (Inr g, m')"
  shows "\<exists>res m'. pgd_loop n grad model labels alpha eps images adv = (Inr res, m')"
proof (induction n arbitrary: adv model)
  case 0
  show ?case by simp
next
  case (Suc n)
  from assms obtain g m1 where "grad model adv labels = (Inr g, m1)" by blast
  then show ?case using Suc.IH by simp
qed

lemma pgd_loop_params:
  assumes "\<forall>m x. params (snd (grad m x labels)) = params m"
  shows "params (snd (pgd_loop n grad model labels alpha eps images adv)) = params model"
proof (induction n arbitrary: adv model)
  case 0
  show ?case by simp
next
  case (Suc n)
  obtain r m1 where g: "grad model adv labels = (r, m1)" by (cases "grad model adv labels")
  then have p: "params m1 = params model" using assms by (metis snd_conv)
  show ?case
  proof (cases r)
    case (Inl e)
    then show ?thesis using g p by simp
  next
    case (Inr gr)
    then show ?thesis using g p Suc.IH by simp
  qed
qed

text \<open>
  C10, amended: for a batch with entries in \<open>[0, 1]\<close>, a budget \<open>eps \<ge> 0\<close> (given or the
  default), a step size within the single-precision range, any step count, with and
  without the random start (whose draw lies between \<open>-eps\<close> and \<open>eps\<close> as single
  precision has them), and any network whose gradient is finite and has the shape of its
  input: a batch that \<open>forward\<close> returns has the shape of the images, every entry in
  \<open>[0, 1]\<close> and within \<open>f32 eps + 2^-25\<close> of the original entry, the budget as cast to
  single precision plus one rounding of \<^verbatim>\<open>images + delta\<close>; \<open>forward\<close> does return one
  whenever computing the gradient never fails; and whatever part of the network the
  gradient computations leave unchanged is unchanged when \<open>forward\<close> hands the network
  back.
\<close>

theorem C10_adversarial_near_ball:
  assumes "0 \<le> eps_of A eps_arg" and "\<bar>pgd_alpha A\<bar> < 2 ^ 127"
    and "\<forall>x \<in> set images. 0 \<le> x \<and> x \<le> 1"
    and "length noise = length images"
    and "\<forall>u \<in> set noise. - f32 (eps_of A eps_arg) \<le> u \<and> u \<le> f32 (eps_of A eps_arg)"
    and "\<forall>m x g m'. grad m x labels = (Inr g, m') \<longrightarrow> length g = length x"
  shows "(\<forall>adv m'. forward A grad noise model images labels eps_arg = (Inr adv, m') \<longrightarrow>
             in_ball (f32 (eps_of A eps_arg) + 1 / 2 ^ 25) images adv)
       \<and> ((\<forall>m x. \<exists>g m'. grad m x labels = (Inr g, m')) \<longrightarrow>
             (\<exists>adv m'. forward A grad noise model images labels eps_arg = (Inr adv, m')))
       \<and> ((\<forall>m x. params (snd (grad m x labels)) = params m) \<longrightarrow>
             params (snd (forward A grad noise model images labels eps_arg)) = params model)"
proof -
  define eps where "eps = eps_of A eps_arg"
  define start where "start = (if pgd_random_start A
             then map (\<lambda>a. clamp a 0 1) (map2 (\<lambda>a u. f32 (a + u)) images noise)
             else images)"
  have f: "forward A grad noise model images labels eps_arg =
      pgd_loop (nat (pgd_steps A)) grad model labels (pgd_alpha A) eps images start"
    by (simp add: forward_def Let_def eps_def start_def)
  have e: "0 \<le> eps" and n: "\<forall>u \<in> set noise. - f32 eps \<le> u \<and> u \<le> f32 eps"
    using assms(1,5) by (simp_all add: eps_def)
  have s: "in_ball (f32 eps + 1 / 2 ^ 25) images start"
    using start_near_ball [OF e assms(3,4) n] by (simp add: start_def)
  then have l: "length start = length images" by (simp add: in_ball_def)
  have a: "\<forall>adv m'. forward A grad noise model images labels eps_arg = (Inr adv, m') \<longrightarrow>
             in_ball (f32 eps + 1 / 2 ^ 25) images adv"
    unfolding f
    using pgd_loop_near_ball [where grad = grad and labels = labels, OF e assms(3,6) l s]
    by blast
  have b: "(\<forall>m x. \<exists>g m'. grad m x labels = (Inr g, m')) \<longrightarrow>
             (\<exists>adv m'. forward A grad noise model images labels eps_arg = (Inr adv, m'))"
    unfolding f using pgd_loop_returns [of grad labels] by blast
  have c: "(\<forall>m x. params (snd (grad m x labels)) = params m) \<longrightarrow>
             params (snd (forward A grad noise model images labels eps_arg)) = params model"
    unfolding f using pgd_loop_params [of params grad labels] by blast
  show ?thesis using a b c unfolding eps_def by (intro conjI)
qed

text \<open>
  C10, as the specification states it, bounds the distance by \<open>eps\<close>. One step of size
  \<open>1\<close> along a positive gradient from the image \<open>0\<close> with the default budget \<open>0.3\<close>:
  the perturbation is clamped to the budget as single precision has it, \<open>5033165 / 2^24\<close>,
  and the returned entry lies outside the \<open>0.3\<close>-ball.
\<close>

theorem C10_budget_exceeded:
  "forward example_pgd example_grad [0] 1 [0] () None = (Inr [5033165 / 16777216], 1)
   \<and> \<not> in_ball (3 / 10) [0] [5033165 / 16777216]"
proof -
  have "pgd_update 1 (3 / 10) [0] [0] [1] = [5033165 / 16777216]"
    by (simp add: pgd_update_def Let_def f32_one f32_three_tenths f32_fixed clamp_def)
  then have "forward example_pgd example_grad [0] 1 [0] () None = (Inr [5033165 / 16777216], 1)"
    by (simp add: forward_def example_pgd_def example_grad_def eps_of_def Let_def)
  moreover have "\<not> in_ball (3 / 10) [0] [5033165 / 16777216]"
    by (simp add: in_ball_def)
  ultimately show ?thesis by (rule conjI)
qed

theorem C10_adversarial_near_ball_witness:
  "\<exists>adv m'. forward example_pgd_random example_grad [1 / 10, - 1 / 5] 1 [1 / 4, 1] () None
                = (Inr adv, m')
      \<and> in_ball (5033165 / 16777216 + 1 / 2 ^ 25) [1 / 4, 1] adv \<and> m' = 1"
proof -
  have e: "eps_of example_pgd_random None = 3 / 10"
    by (simp add: eps_of_def example_pgd_random_def)
  have al: "\<bar>pgd_alpha example_pgd_random\<bar> < 2 ^ 127"
    by (simp add: example_pgd_random_def)
  have h: "0 \<le> eps_of example_pgd_random None"
    "\<forall>x \<in> set [1 / 4, 1 :: real]. 0 \<le> x \<and> x \<le> 1"
    "length [1 / 10, - 1 / 5 :: real] = length [1 / 4, 1 :: real]"
    "\<forall>u \<in> set [1 / 10, - 1 / 5 :: real].
        - f32 (eps_of example_pgd_random None) \<le> u \<and> u \<le> f32 (eps_of example_pgd_random None)"
    "\<forall>m x g m'. example_grad m x () = (Inr g, m') \<longrightarrow> length g = length x"
    by (auto simp: e f32_three_tenths example_grad_def)
  have t: "\<forall>m x. \<exists>g m'. example_grad m x () = (Inr g, m')" by (simp add: example_grad_def)
  have p: "\<forall>m x. id (snd (example_grad m x ())) = id m" by (simp add: example_grad_def)
  note inst = C10_adversarial_near_ball [where A = example_pgd_random and eps_arg = None and grad = example_grad
      and model = 1 and labels = "()" and params = id, OF h(1) al h(2-)]
  from inst t p show ?thesis unfolding e f32_three_tenths by (metis id_apply snd_conv)
qed


end
